theory Spec2Isabelle
  imports Complex_Main "HOL-Library.Sublist"
begin


section \<open>Python text primitives\<close>

text \<open>
  A Python \<open>str\<close> is modelled as a \<open>string\<close> in which every \<open>char\<close> stands for one code
  point (the code points below 256), so \<open>length\<close> is Python's \<open>len\<close>. Python floats are
  modelled as real numbers; the non-finite floats are outside the model.
\<close>

datatype py_error = ValueError | ZeroDivisionError | IndexError | KeyError | CollaboratorError

text \<open>\<open>str.isspace\<close> on one code point: the white space of \<open>str.strip()\<close> and \<open>str.split()\<close>.\<close>

definition isspace :: "char \<Rightarrow> bool" where
  "isspace c = (of_char c \<in> {9, 10, 11, 12, 13, 28, 29, 30, 31, 32, 133, 160 :: nat})"

definition strip :: "string \<Rightarrow> string" where
  "strip s = rev (dropWhile isspace (rev (dropWhile isspace s)))"

definition lower_char :: "char \<Rightarrow> char" where
  "lower_char c =
     (let n = (of_char c :: nat)
      in if (65 \<le> n \<and> n \<le> 90) \<or> (192 \<le> n \<and> n \<le> 222 \<and> n \<noteq> 215)
         then char_of (n + 32) else c)"

definition lower :: "string \<Rightarrow> string" where
  "lower s = map lower_char s"

text \<open>\<open>s.split()\<close> with no separator: the maximal runs of non-space characters.\<close>

fun words_acc :: "string \<Rightarrow> string \<Rightarrow> string list" where
  "words_acc cur [] = (if cur = [] then [] else [cur])"
| "words_acc cur (c # cs) =
     (if isspace c then (if cur = [] then words_acc [] cs else cur # words_acc [] cs)
      else words_acc (cur @ [c]) cs)"

definition split_ws :: "string \<Rightarrow> string list" where
  "split_ws s = words_acc [] s"

text \<open>Slices \<open>xs[:k]\<close> and \<open>xs[k:]\<close> for an integer \<open>k\<close>; a negative \<open>k\<close> counts from the end.\<close>

definition slice_to :: "int \<Rightarrow> 'a list \<Rightarrow> 'a list" where
  "slice_to k xs = (if 0 \<le> k then take (nat k) xs else take (length xs - nat (- k)) xs)"

definition slice_from :: "int \<Rightarrow> 'a list \<Rightarrow> 'a list" where
  "slice_from k xs = (if 0 \<le> k then drop (nat k) xs else drop (length xs - nat (- k)) xs)"

text \<open>
  \<open>list.sort(key=..., reverse=True)\<close> and \<open>sorted(..., reverse=True)\<close>: descending by key,
  elements with equal keys in their original order.
\<close>

definition sort_desc :: "('a \<Rightarrow> real) \<Rightarrow> 'a list \<Rightarrow> 'a list" where
  "sort_desc key xs = sort_key (\<lambda>x. - key x) xs"

section \<open>Data model\<close>

record ChunkMetadata =
  source :: string
  page :: int
  section_label :: string
  chunk_index :: nat
  parent_chunk_id :: "string option"
  overlap_with_prev :: nat
  overlap_with_next :: nat
  semantic_tags :: "string list"

record Chunk =
  c_id :: string
  c_text :: string
  c_metadata :: ChunkMetadata

record 'm RetrievalResult =
  chunk_id :: string
  r_text :: string
  score :: real
  r_source :: string
  r_metadata :: 'm

record RerankConfig =
  enabled :: bool
  diversity_threshold :: real
  relevance_threshold :: real
  max_context_tokens :: int

definition default_RerankConfig :: RerankConfig where
  "default_RerankConfig =
     \<lparr>enabled = True, diversity_threshold = 7 / 10, relevance_threshold = 1 / 2,
      max_context_tokens = 4000\<rparr>"

record HybridConfig =
  bm25_weight :: real
  vector_weight :: real
  top_k_bm25 :: int
  top_k_vector :: int
  final_top_k :: int
  rrf_k :: int

definition default_HybridConfig :: HybridConfig where
  "default_HybridConfig =
     \<lparr>bm25_weight = 3 / 10, vector_weight = 7 / 10, top_k_bm25 = 20, top_k_vector = 20,
      final_top_k = 10, rrf_k = 60\<rparr>"

record BM25Config =
  bm25_k1 :: real
  bm25_b :: real

section \<open>Reranker\<close>

text \<open>
  The language-model client is a collaborator: the \<open>n\<close>-th call of \<open>generate\<close> on a prompt
  either raises or returns text. \<open>float(...)\<close> is the library's parser: \<open>None\<close> is its
  \<open>ValueError\<close>.
\<close>

type_synonym llm_client = "nat \<Rightarrow> string \<Rightarrow> py_error + string"
type_synonym float_parser = "string \<Rightarrow> real option"

definition text_similarity :: "string \<Rightarrow> string \<Rightarrow> real" where
  "text_similarity text1 text2 =
     (let words1 = set (split_ws (lower text1));
          words2 = set (split_ws (lower text2))
      in if words1 = {} \<or> words2 = {} then 0
         else (let intersection = card (words1 \<inter> words2);
                   union = card (words1 \<union> words2)
               in if union > 0 then real intersection / real union else 0))"

text \<open>The inner loop with its \<open>break\<close>: is some selected result too similar?\<close>

definition too_similar :: "RerankConfig \<Rightarrow> ('m, 'a) RetrievalResult_scheme \<Rightarrow>
    ('m, 'a) RetrievalResult_scheme list \<Rightarrow> bool" where
  "too_similar cfg result diverse =
     list_ex (\<lambda>selected. text_similarity (r_text result) (r_text selected)
                > diversity_threshold cfg) diverse"

fun diversity_loop :: "RerankConfig \<Rightarrow> ('m, 'a) RetrievalResult_scheme list \<Rightarrow>
    ('m, 'a) RetrievalResult_scheme list \<Rightarrow> ('m, 'a) RetrievalResult_scheme list" where
  "diversity_loop cfg diverse [] = diverse"
| "diversity_loop cfg diverse (result # rest) =
     (if too_similar cfg result diverse then diversity_loop cfg diverse rest
      else diversity_loop cfg (diverse @ [result]) rest)"

definition filter_diversity :: "RerankConfig \<Rightarrow> ('m, 'a) RetrievalResult_scheme list \<Rightarrow>
    ('m, 'a) RetrievalResult_scheme list" where
  "filter_diversity cfg results =
     (case results of [] \<Rightarrow> [] | first # rest \<Rightarrow> diversity_loop cfg [first] rest)"

fun limit_loop :: "RerankConfig \<Rightarrow> int \<Rightarrow> ('m, 'a) RetrievalResult_scheme list \<Rightarrow>
    ('m, 'a) RetrievalResult_scheme list" where
  "limit_loop cfg total_tokens [] = []"
| "limit_loop cfg total_tokens (result # rest) =
     (let chunk_tokens = int (length (r_text result)) div 4
      in if total_tokens + chunk_tokens \<le> max_context_tokens cfg
         then result # limit_loop cfg (total_tokens + chunk_tokens) rest
         else [])"

definition limit_context :: "RerankConfig \<Rightarrow> ('m, 'a) RetrievalResult_scheme list \<Rightarrow>
    ('m, 'a) RetrievalResult_scheme list" where
  "limit_context cfg results = limit_loop cfg 0 results"

definition relevance_prompt :: "string \<Rightarrow> string \<Rightarrow> string" where
  "relevance_prompt text query =
     ''Rate the relevance of this text to the query on a scale of 0-10.'' @ [CHR 0x0A]
     @ ''        '' @ [CHR 0x0A]
     @ ''Query: '' @ query @ [CHR 0x0A, CHR 0x0A]
     @ ''Text: '' @ slice_to 500 text @ ''...'' @ [CHR 0x0A, CHR 0x0A]
     @ ''Respond with only a number between 0 and 10.''"

text \<open>The body of the \<open>try\<close> in \<open>_get_relevance_score\<close>: it raises where the call or the parse does.\<close>

definition relevance_try :: "llm_client \<Rightarrow> float_parser \<Rightarrow> nat \<Rightarrow> string \<Rightarrow> py_error + real" where
  "relevance_try llm py_float n prompt =
     (case llm n prompt of
        Inl e \<Rightarrow> Inl e
      | Inr response \<Rightarrow>
          (case py_float (strip response) of
             None \<Rightarrow> Inl ValueError
           | Some x \<Rightarrow> Inr (min (max (x / 10) 0) 1)))"

definition get_relevance_score :: "llm_client \<Rightarrow> float_parser \<Rightarrow> nat \<Rightarrow> string \<Rightarrow> string \<Rightarrow>
    py_error + real" where
  "get_relevance_score llm py_float n text query =
     (case relevance_try llm py_float n (relevance_prompt text query) of
        Inl e \<Rightarrow> Inr (1 / 2)
      | Inr s \<Rightarrow> Inr s)"

text \<open>
  The scoring loop of \<open>_score_relevance\<close>, call by call; its own \<open>except\<close> keeps the result
  unscored.
\<close>

fun score_loop :: "llm_client \<Rightarrow> float_parser \<Rightarrow> string \<Rightarrow> nat \<Rightarrow>
    ('m, 'a) RetrievalResult_scheme list \<Rightarrow> ('m, 'a) RetrievalResult_scheme list" where
  "score_loop llm py_float query n [] = []"
| "score_loop llm py_float query n (result # rest) =
     (case get_relevance_score llm py_float n (r_text result) query of
        Inr s \<Rightarrow> result\<lparr>score := s\<rparr>
      | Inl e \<Rightarrow> result) # score_loop llm py_float query (Suc n) rest"

definition score_relevance :: "llm_client option \<Rightarrow> float_parser \<Rightarrow>
    ('m, 'a) RetrievalResult_scheme list \<Rightarrow> string \<Rightarrow>
    py_error + ('m, 'a) RetrievalResult_scheme list" where
  "score_relevance llm_client py_float results query =
     (case llm_client of
        None \<Rightarrow> Inr results
      | Some llm \<Rightarrow> Inr (sort_desc score (score_loop llm py_float query 0 results)))"

text \<open>\<open>xs[:top_k] if top_k else xs\<close>: \<open>None\<close> and \<open>0\<close> are both false.\<close>

definition truncate_top_k :: "int option \<Rightarrow> 'a list \<Rightarrow> 'a list" where
  "truncate_top_k top_k xs =
     (case top_k of None \<Rightarrow> xs | Some k \<Rightarrow> if k \<noteq> 0 then slice_to k xs else xs)"

definition rerank :: "llm_client option \<Rightarrow> float_parser \<Rightarrow> RerankConfig \<Rightarrow>
    ('m, 'a) RetrievalResult_scheme list \<Rightarrow> string \<Rightarrow> int option \<Rightarrow>
    py_error + ('m, 'a) RetrievalResult_scheme list" where
  "rerank llm_client py_float cfg results query top_k =
     (if \<not> enabled cfg \<or> results = [] then Inr (truncate_top_k top_k results)
      else
        (case score_relevance llm_client py_float results query of
           Inl e \<Rightarrow> Inl e
         | Inr scored_results \<Rightarrow>
             (let filtered = filter (\<lambda>r. score r \<ge> relevance_threshold cfg) scored_results;
                  diverse_results = filter_diversity cfg filtered;
                  limited = limit_context cfg diverse_results
              in Inr (truncate_top_k top_k limited))))"

section \<open>Hybrid retriever: Reciprocal Rank Fusion\<close>

text \<open>
  \<open>scores\<close> is a \<open>defaultdict(float)\<close>: an association list in insertion order, which is the
  order \<open>scores.keys()\<close> iterates in. \<open>scores[cid] += x\<close> inserts the default \<open>0.0\<close> for a
  new key.
\<close>

fun dict_add :: "(string \<times> real) list \<Rightarrow> string \<Rightarrow> real \<Rightarrow> (string \<times> real) list" where
  "dict_add [] cid x = [(cid, 0 + x)]"
| "dict_add ((key, s) # rest) cid x =
     (if key = cid then (key, s + x) # rest else (key, s) # dict_add rest cid x)"

text \<open>One scoring loop of \<open>rrf_fusion\<close>; the division raises when \<open>k + rank + 1\<close> is zero.\<close>

fun rrf_pass :: "real \<Rightarrow> int \<Rightarrow> nat \<Rightarrow> ('m, 'a) RetrievalResult_scheme list \<Rightarrow>
    (string \<times> real) list \<times> (string \<rightharpoonup> ('m, 'a) RetrievalResult_scheme) \<Rightarrow>
    py_error + (string \<times> real) list \<times> (string \<rightharpoonup> ('m, 'a) RetrievalResult_scheme)" where
  "rrf_pass weight k rank [] st = Inr st"
| "rrf_pass weight k rank (result # rest) (scores, chunks) =
     (if k + int rank + 1 = 0 then Inl ZeroDivisionError
      else rrf_pass weight k (Suc rank) rest
             (dict_add scores (chunk_id result) (weight / real_of_int (k + int rank + 1)),
              if chunks (chunk_id result) = None then chunks(chunk_id result \<mapsto> result)
              else chunks))"

text \<open>The final loop: \<open>chunks[cid].copy()\<close> with the fused score and the source tag.\<close>

fun build_results :: "(string \<times> real) list \<Rightarrow> (string \<rightharpoonup> ('m, 'a) RetrievalResult_scheme) \<Rightarrow>
    string list \<Rightarrow> py_error + ('m, 'a) RetrievalResult_scheme list" where
  "build_results scores chunks [] = Inr []"
| "build_results scores chunks (cid # rest) =
     (case (chunks cid, map_of scores cid) of
        (Some result, Some s) \<Rightarrow>
          (case build_results scores chunks rest of
             Inl e \<Rightarrow> Inl e
           | Inr results \<Rightarrow> Inr (result\<lparr>score := s, r_source := ''hybrid''\<rparr> # results))
      | _ \<Rightarrow> Inl KeyError)"

definition rrf_fusion :: "HybridConfig \<Rightarrow> ('m, 'a) RetrievalResult_scheme list \<Rightarrow>
    ('m, 'a) RetrievalResult_scheme list \<Rightarrow> int \<Rightarrow>
    py_error + ('m, 'a) RetrievalResult_scheme list" where
  "rrf_fusion cfg bm25_results vector_results k =
     (case rrf_pass (bm25_weight cfg) k 0 bm25_results ([], Map.empty) of
        Inl e \<Rightarrow> Inl e
      | Inr st \<Rightarrow>
          (case rrf_pass (vector_weight cfg) k 0 vector_results st of
             Inl e \<Rightarrow> Inl e
           | Inr (scores, chunks) \<Rightarrow>
               (let sorted_ids = map fst (sort_desc snd scores)
                in build_results scores chunks sorted_ids)))"

text \<open>
  The fused score as the specification words it: each list adds
  \<open>weight / (rrf_k + rank + 1)\<close> at every rank where the chunk ID stands.
\<close>

definition score_of :: "(string \<times> real) list \<Rightarrow> string \<Rightarrow> real" where
  "score_of scores cid = (case map_of scores cid of None \<Rightarrow> 0 | Some s \<Rightarrow> s)"

fun rrf_contrib :: "real \<Rightarrow> int \<Rightarrow> nat \<Rightarrow> ('m, 'a) RetrievalResult_scheme list \<Rightarrow> string \<Rightarrow> real" where
  "rrf_contrib weight k rank [] cid = 0"
| "rrf_contrib weight k rank (result # rest) cid =
     (if chunk_id result = cid then weight / real_of_int (k + int rank + 1) else 0)
     + rrf_contrib weight k (Suc rank) rest cid"


section \<open>Lexical index (BM25)\<close>

text \<open>
  \<open>rank_bm25.BM25Okapi\<close> and the regular-expression engine are libraries: the built index
  is its \<open>get_scores\<close> function, and \<open>re.findall(r'\b[\w-]+\b', text)\<close> is a parameter.
\<close>

type_synonym bm25_okapi = "string list \<Rightarrow> real list"

record BM25Index =
  self_config :: BM25Config
  self_index :: "bm25_okapi option"
  self_chunks :: "Chunk list"
  self_tokenized_corpus :: "string list list"

definition init_BM25Index :: "BM25Config \<Rightarrow> BM25Index" where
  "init_BM25Index cfg = \<lparr>self_config = cfg, self_index = None, self_chunks = [], self_tokenized_corpus = []\<rparr>"

text \<open>\<open>str.isdigit\<close> on one code point.\<close>

definition isdigit_char :: "char \<Rightarrow> bool" where
  "isdigit_char c =
     (let n = (of_char c :: nat) in (48 \<le> n \<and> n \<le> 57) \<or> n = 178 \<or> n = 179 \<or> n = 185)"

definition isdigit :: "string \<Rightarrow> bool" where
  "isdigit t = (t \<noteq> [] \<and> list_all isdigit_char t)"

definition stopwords :: "string list" where
  "stopwords =
     [''the'', ''a'', ''an'', ''and'', ''or'', ''but'', ''in'', ''on'', ''at'', ''to'',
      ''for'', ''of'', ''with'', ''by'', ''from'', ''as'', ''is'', ''was'', ''are'',
      ''were'', ''been'', ''be'', ''have'', ''has'', ''had'', ''do'', ''does'', ''did'',
      ''will'', ''would'', ''could'', ''should'', ''may'', ''might'', ''must'',
      ''this'', ''that'', ''these'', ''those'', ''it'', ''its'', ''we'', ''our'',
      ''they'', ''their'', ''which'', ''who'', ''whom'', ''what'', ''where'', ''when'']"

definition tokenize :: "(string \<Rightarrow> string list) \<Rightarrow> string \<Rightarrow> string list" where
  "tokenize findall_words text =
     (let tokens = findall_words (lower text);
          tokens = filter (\<lambda>t. length t > 1 \<and> \<not> isdigit t) tokens
      in filter (\<lambda>t. t \<notin> set stopwords) tokens)"

definition build_index :: "(string list list \<Rightarrow> real \<Rightarrow> real \<Rightarrow> bm25_okapi) \<Rightarrow>
    (string \<Rightarrow> string list) \<Rightarrow> BM25Index \<Rightarrow> Chunk list \<Rightarrow> BM25Index" where
  "build_index BM25Okapi findall_words self new_chunks =
     (if new_chunks = [] then self\<lparr>self_index := None, self_chunks := []\<rparr>
      else
        (let corpus = map (\<lambda>chunk. tokenize findall_words (c_text chunk)) new_chunks
         in self\<lparr>self_chunks := new_chunks, self_tokenized_corpus := corpus,
                 self_index := Some (BM25Okapi corpus (bm25_k1 (self_config self))
                                      (bm25_b (self_config self)))\<rparr>))"

definition top_indices :: "real list \<Rightarrow> int \<Rightarrow> (nat \<times> real) list" where
  "top_indices scores top_k =
     (let scored_indices = zip [0 ..< length scores] scores
      in slice_to top_k (sort_desc snd scored_indices))"

definition bm25_result :: "Chunk \<Rightarrow> real \<Rightarrow> ChunkMetadata RetrievalResult" where
  "bm25_result chunk s =
     \<lparr>chunk_id = c_id chunk, r_text = c_text chunk, score = s, r_source = ''bm25'',
      r_metadata = c_metadata chunk\<rparr>"

fun collect_results :: "Chunk list \<Rightarrow> (nat \<times> real) list \<Rightarrow>
    py_error + ChunkMetadata RetrievalResult list" where
  "collect_results cs [] = Inr []"
| "collect_results cs ((idx, s) # rest) =
     (if s > 0 then
        (if idx < length cs then
           (case collect_results cs rest of
              Inl e \<Rightarrow> Inl e
            | Inr results \<Rightarrow> Inr (bm25_result (cs ! idx) s # results))
         else Inl IndexError)
      else collect_results cs rest)"

definition search :: "(string \<Rightarrow> string list) \<Rightarrow> BM25Index \<Rightarrow> string \<Rightarrow> int \<Rightarrow>
    py_error + ChunkMetadata RetrievalResult list" where
  "search findall_words self query top_k =
     (case self_index self of
        None \<Rightarrow> Inr []
      | Some bm25 \<Rightarrow>
          if self_chunks self = [] then Inr []
          else
            (let tokenized_query = tokenize findall_words query;
                 scores = bm25 tokenized_query
             in collect_results (self_chunks self) (top_indices scores top_k)))"

section \<open>Chunker\<close>

record ChunkConfig =
  chunk_size :: int
  overlap_percent :: int
  min_chunk_size :: int
  section_detection :: bool

definition default_ChunkConfig :: ChunkConfig where
  "default_ChunkConfig =
     \<lparr>chunk_size = 1000, overlap_percent = 20, min_chunk_size = 100, section_detection = True\<rparr>"

text \<open>
  The keys of the table \<open>SECTION_PATTERNS\<close>, in its insertion order. Each key has a regular
  expression that the library compiles with \<open>IGNORECASE | MULTILINE\<close>; the regular-expression
  engine is a library, so the model takes as a parameter \<open>pattern_match name line\<close>: whether
  the compiled pattern of the section \<open>name\<close> matches at the start of \<open>line\<close>.
\<close>

definition SECTION_PATTERNS :: "string list" where
  "SECTION_PATTERNS =
     [''abstract'', ''introduction'', ''methods'', ''results'', ''discussion'',
      ''conclusion'', ''references'']"

subsection \<open>\<open>str.split(separator)\<close>\<close>

text \<open>\<open>str.find\<close>: the index of the first occurrence of a non-empty separator.\<close>

fun find_sep :: "string \<Rightarrow> string \<Rightarrow> nat option" where
  "find_sep sep [] = None"
| "find_sep sep (c # cs) =
     (if prefix sep (c # cs) then Some 0 else map_option Suc (find_sep sep cs))"

lemma find_sep_bound:
  "find_sep sep s = Some i \<Longrightarrow> i + length sep \<le> length s"
proof (induction s arbitrary: i)
  case Nil
  then show ?case by simp
next
  case (Cons c cs)
  show ?case
  proof (cases "prefix sep (c # cs)")
    case True
    with Cons.prems have "i = 0" by simp
    moreover from True have "length sep \<le> length (c # cs)" by (rule prefix_length_le)
    ultimately show ?thesis by simp
  next
    case False
    with Cons.prems obtain j where "find_sep sep cs = Some j" "i = Suc j" by auto
    with Cons.IH show ?thesis by simp
  qed
qed

text \<open>
  The parts between the non-overlapping occurrences of the separator, from the left.
  Python raises \<open>ValueError\<close> on an empty separator; the chunker passes only the five
  non-empty ones, and the model returns the text unsplit there.
\<close>

function split_sep :: "string \<Rightarrow> string \<Rightarrow> string list" where
  "split_sep sep s =
     (if sep = [] then [s]
      else (case find_sep sep s of
              None \<Rightarrow> [s]
            | Some i \<Rightarrow> take i s # split_sep sep (drop (i + length sep) s)))"
  by pat_completeness auto
termination
proof (relation "measure (\<lambda>(sep, s). length s)")
  show "wf (measure (\<lambda>(sep, s). length s))" by simp
next
  fix sep s :: string and i :: nat
  assume "sep \<noteq> []" and "find_sep sep s = Some i"
  then have "0 < length sep" and "i + length sep \<le> length s"
    by (simp_all add: find_sep_bound)
  then have "length s - (i + length sep) < length s" by arith
  then show "((sep, drop (i + length sep) s), (sep, s)) \<in> measure (\<lambda>(sep, s). length s)"
    by simp
qed

declare split_sep.simps [simp del]

subsection \<open>Recursive splitting\<close>

definition separators :: "string list" where
  "separators = [[CHR 0x0A, CHR 0x0A], [CHR 0x0A], ''. '', '', '', '' '']"

text \<open>\<open>_hard_split\<close>: \<open>range(0, len(text), chunk_size)\<close> raises on a zero step and is empty
  on a negative one.\<close>

function hard_loop :: "nat \<Rightarrow> string \<Rightarrow> string \<Rightarrow> (string \<times> string) list" where
  "hard_loop n section text =
     (if n = 0 \<or> text = [] then []
      else (let chunk_text = strip (take n text)
            in (if chunk_text \<noteq> [] then [(chunk_text, section)] else [])
               @ hard_loop n section (drop n text)))"
  by pat_completeness auto
termination
  by (relation "measure (\<lambda>(n, section, text). length text)") auto

declare hard_loop.simps [simp del]

definition hard_split :: "ChunkConfig \<Rightarrow> string \<Rightarrow> string \<Rightarrow> py_error + (string \<times> string) list" where
  "hard_split cfg text section =
     (if chunk_size cfg = 0 then Inl ValueError
      else if chunk_size cfg < 0 then Inr []
      else Inr (hard_loop (nat (chunk_size cfg)) section text))"

text \<open>The end of \<open>_merge_splits\<close>: the last accumulated chunk is emitted, or appended to the
  previous chunk when it is below the minimum size.\<close>

definition merge_finish :: "ChunkConfig \<Rightarrow> string \<Rightarrow> string \<Rightarrow> (string \<times> string) list \<Rightarrow>
    string \<Rightarrow> (string \<times> string) list" where
  "merge_finish cfg separator section chunks current_chunk =
     (if current_chunk \<noteq> [] \<and> int (length (strip current_chunk)) \<ge> min_chunk_size cfg
      then chunks @ [(strip current_chunk, section)]
      else if current_chunk \<noteq> [] \<and> chunks \<noteq> []
      then (case last chunks of
              (prev_text, prev_section) \<Rightarrow>
                butlast chunks @ [(prev_text @ separator @ strip current_chunk, prev_section)])
      else chunks)"

text \<open>The chunks flushed when the next part overflows the accumulated chunk.\<close>

definition flush :: "ChunkConfig \<Rightarrow> string \<Rightarrow> (string \<times> string) list \<Rightarrow> string \<Rightarrow>
    (string \<times> string) list" where
  "flush cfg section chunks current_chunk =
     (if current_chunk \<noteq> [] \<and> int (length current_chunk) \<ge> min_chunk_size cfg
      then chunks @ [(strip current_chunk, section)]
      else chunks)"

text \<open>For the termination of the recursion: the longest part of a split.\<close>

fun max_len :: "string list \<Rightarrow> nat" where
  "max_len [] = 0"
| "max_len (p # ps) = max (length p) (max_len ps)"

lemma split_sep_Nil [simp]: "split_sep [] s = [s]"
  by (simp add: split_sep.simps)

lemma split_sep_lengths:
  "sep \<noteq> [] \<Longrightarrow>
   sum_list (map length (split_sep sep s)) + (length (split_sep sep s) - 1) * length sep = length s"
proof (induction sep s rule: split_sep.induct)
  case (1 sep s)
  show ?case
  proof (cases "find_sep sep s")
    case None
    with 1 show ?thesis by (simp add: split_sep.simps)
  next
    case (Some i)
    let ?rest = "split_sep sep (drop (i + length sep) s)"
    from Some have b: "i + length sep \<le> length s" by (rule find_sep_bound)
    have ne: "0 < length ?rest"
      by (subst split_sep.simps) (simp split: option.splits)
    from 1 Some have "sum_list (map length ?rest) + (length ?rest - 1) * length sep
        = length s - (i + length sep)"
      by simp
    moreover have "split_sep sep s = take i s # ?rest"
      using 1(2) Some by (subst split_sep.simps) simp
    moreover have "(length ?rest - 1) * length sep + length sep = length ?rest * length sep"
      using ne by (cases "length ?rest") simp_all
    ultimately show ?thesis using b by simp
  qed
qed

lemma max_len_le_sum: "max_len ps \<le> sum_list (map length ps)"
  by (induction ps) auto

lemma max_len_ge: "p \<in> set ps \<Longrightarrow> length p \<le> max_len ps"
  by (induction ps) auto

lemma max_len_split_sep:
  assumes "1 < length (split_sep sep s)"
  shows "max_len (split_sep sep s) < length s"
proof -
  from assms have sep: "sep \<noteq> []" by (cases "sep = []") simp_all
  then have "0 < length sep" by simp
  with assms have "0 < (length (split_sep sep s) - 1) * length sep" by simp
  with split_sep_lengths [OF sep, of s] max_len_le_sum [of "split_sep sep s"]
  show ?thesis by linarith
qed

text \<open>
  \<open>_recursive_split\<close>, its loop over the separator hierarchy, \<open>_merge_splits\<close> and the
  loop of \<open>_merge_splits\<close> over the parts. A part longer than the chunk size is split again
  from the first separator; the recursion ends because every part of a split into several
  parts is shorter than the text.
\<close>

function recursive_split :: "ChunkConfig \<Rightarrow> string \<Rightarrow> string \<Rightarrow> py_error + (string \<times> string) list"
  and try_separators :: "ChunkConfig \<Rightarrow> string \<Rightarrow> string \<Rightarrow> string list \<Rightarrow>
        py_error + (string \<times> string) list"
  and merge_splits :: "ChunkConfig \<Rightarrow> string list \<Rightarrow> string \<Rightarrow> string \<Rightarrow>
        py_error + (string \<times> string) list"
  and merge_loop :: "ChunkConfig \<Rightarrow> string \<Rightarrow> string \<Rightarrow> string list \<Rightarrow>
        (string \<times> string) list \<Rightarrow> string \<Rightarrow> py_error + (string \<times> string) list \<times> string"
where
  "recursive_split cfg text section =
     (if int (length text) \<le> chunk_size cfg
      then Inr (if strip text \<noteq> [] then [(text, section)] else [])
      else try_separators cfg text section separators)"
| "try_separators cfg text section [] = hard_split cfg text section"
| "try_separators cfg text section (separator # rest) =
     (let parts = split_sep separator text
      in if length parts > 1 then
           (case merge_splits cfg parts separator section of
              Inl e \<Rightarrow> Inl e
            | Inr chunks \<Rightarrow>
                if chunks \<noteq> [] then Inr chunks else try_separators cfg text section rest)
         else try_separators cfg text section rest)"
| "merge_splits cfg parts separator section =
     (case merge_loop cfg separator section parts [] [] of
        Inl e \<Rightarrow> Inl e
      | Inr (chunks, current_chunk) \<Rightarrow>
          Inr (merge_finish cfg separator section chunks current_chunk))"
| "merge_loop cfg separator section [] chunks current_chunk = Inr (chunks, current_chunk)"
| "merge_loop cfg separator section (part # parts) chunks current_chunk =
     (let test_chunk = (if current_chunk \<noteq> [] then current_chunk @ separator @ part else part)
      in if int (length test_chunk) \<le> chunk_size cfg
         then merge_loop cfg separator section parts chunks test_chunk
         else
           (let flushed = flush cfg section chunks current_chunk
            in if int (length part) > chunk_size cfg then
                 (case recursive_split cfg part section of
                    Inl e \<Rightarrow> Inl e
                  | Inr sub_chunks \<Rightarrow>
                      merge_loop cfg separator section parts (flushed @ sub_chunks) [])
               else merge_loop cfg separator section parts flushed part))"
  by pat_completeness auto
termination
proof (relation "inv_image (less_than <*lex*> less_than)
    (\<lambda>x. case x of
        Inl (Inl (cfg, text, section)) \<Rightarrow> (2 * length text + 1, 6)
      | Inl (Inr (cfg, text, section, seps)) \<Rightarrow> (2 * length text + 1, length seps)
      | Inr (Inl (cfg, parts, separator, section)) \<Rightarrow> (2 * max_len parts + 2, length parts + 1)
      | Inr (Inr (cfg, separator, section, parts, chunks, current_chunk)) \<Rightarrow>
          (2 * max_len parts + 2, length parts))",
    goal_cases)
  case 1
  show ?case by (intro wf_inv_image wf_lex_prod wf_less_than)
next
  case (2 cfg tx sc)
  then show ?case by (simp add: separators_def)
next
  case (3 cfg tx sc separator rest parts)
  then show ?case using max_len_split_sep [of separator tx] by simp
next
  case (4 cfg tx sc separator rest parts chunks)
  then show ?case by simp
next
  case (5 cfg tx sc separator rest parts)
  then show ?case by simp
next
  case (6 cfg parts separator sec)
  then show ?case by simp
next
  case (7 cfg separator sec part parts chunks current_chunk test_chunk)
  then show ?case by (auto simp: max_def)
next
  case (8 cfg separator sec part parts chunks current_chunk test_chunk flushed)
  then show ?case by (auto simp: max_def)
next
  case (9 cfg separator sec part parts chunks current_chunk test_chunk flushed sub_chunks)
  then show ?case by (auto simp: max_def)
next
  case (10 cfg separator sec part parts chunks current_chunk test_chunk flushed)
  then show ?case by (auto simp: max_def)
qed

declare recursive_split.simps [simp del]

subsection \<open>Overlap and materialization\<close>

text \<open>\<open>int(chunk_size * overlap_percent / 100)\<close>: the quotient truncated towards zero (the
  float division is exact at the magnitudes of a configuration).\<close>

definition overlap_chars :: "ChunkConfig \<Rightarrow> int" where
  "overlap_chars cfg =
     (let x = chunk_size cfg * overlap_percent cfg
      in if 0 \<le> x then x div 100 else - ((- x) div 100))"

text \<open>\<open>t[-overlap_chars:] if len(t) > overlap_chars else t\<close>.\<close>

definition overlap_content :: "int \<Rightarrow> string \<Rightarrow> string" where
  "overlap_content oc t = (if int (length t) > oc then slice_from (- oc) t else t)"

definition apply_overlap :: "ChunkConfig \<Rightarrow> (string \<times> string) list \<Rightarrow>
    (string \<times> string \<times> nat \<times> nat) list" where
  "apply_overlap cfg raw =
     map (\<lambda>i.
        (let (text, section) = raw ! i;
             (new_text, overlap_prev) =
               (if i > 0 then
                  (let prev_text = fst (raw ! (i - 1));
                       content = overlap_content (overlap_chars cfg) prev_text
                   in if \<not> prefix content text then (content @ '' '' @ text, length content)
                      else (text, 0))
                else (text, 0));
             overlap_next =
               (if i < length raw - 1
                then length (overlap_content (overlap_chars cfg) text) else 0)
         in (new_text, section, overlap_prev, overlap_next)))
       [0 ..< length raw]"

text \<open>\<open>str(i)\<close> for a natural number.\<close>

fun str_nat :: "nat \<Rightarrow> string" where
  "str_nat n =
     (if n < 10 then [char_of (48 + n)] else str_nat (n div 10) @ [char_of (48 + n mod 10)])"

declare str_nat.simps [simp del]

text \<open>\<open>_create_chunks\<close>; \<open>uuid i\<close> is \<open>uuid.uuid4().hex[:8]\<close> of the \<open>i\<close>-th call, a random
  token.\<close>

definition create_chunks :: "(nat \<Rightarrow> string) \<Rightarrow> (string \<times> string \<times> nat \<times> nat) list \<Rightarrow>
    string \<Rightarrow> Chunk list" where
  "create_chunks uuid chunks_data src =
     map (\<lambda>i.
        (case chunks_data ! i of
           (text, section, overlap_prev, overlap_next) \<Rightarrow>
             \<lparr>c_id = src @ ''_'' @ section @ ''_'' @ str_nat i @ ''_'' @ uuid i,
              c_text = text,
              c_metadata =
                \<lparr>source = src, page = 0, section_label = section, chunk_index = i,
                 parent_chunk_id = None, overlap_with_prev = overlap_prev,
                 overlap_with_next = overlap_next, semantic_tags = []\<rparr>\<rparr>))
       [0 ..< length chunks_data]"

subsection \<open>Section detection\<close>

definition first_section :: "(string \<Rightarrow> string \<Rightarrow> bool) \<Rightarrow> string \<Rightarrow> string option" where
  "first_section pattern_match stripped =
     find (\<lambda>section_name. pattern_match section_name stripped) SECTION_PATTERNS"

fun cumulative :: "nat \<Rightarrow> string list \<Rightarrow> nat list" where
  "cumulative pos [] = []"
| "cumulative pos (line # rest) = pos # cumulative (pos + length line + 1) rest"

definition detect_sections :: "(string \<Rightarrow> string \<Rightarrow> bool) \<Rightarrow> string \<Rightarrow>
    (string \<times> nat \<times> nat) list" where
  "detect_sections pattern_match text =
     (let lines = split_sep [CHR 0x0A] text;
          lines_cumulative = cumulative 0 lines;
          sections =
            List.map_filter
              (\<lambda>i. map_option (\<lambda>section_name. (section_name, lines_cumulative ! i, i))
                     (first_section pattern_match (strip (lines ! i))))
              [0 ..< length lines]
      in map (\<lambda>i.
            (case sections ! i of
               (section_name, _, line_idx) \<Rightarrow>
                 (let start_pos =
                        (if line_idx < length lines_cumulative
                         then lines_cumulative ! line_idx else 0);
                      end_pos =
                        (if i + 1 < length sections then
                           (let next_line_idx = snd (snd (sections ! (i + 1)))
                            in if next_line_idx < length lines_cumulative
                               then lines_cumulative ! next_line_idx else length text)
                         else length text)
                  in (section_name, start_pos, end_pos))))
           [0 ..< length sections])"

text \<open>The loop of \<open>_recursive_split_with_sections\<close> over the sections.\<close>

fun split_sections :: "ChunkConfig \<Rightarrow> string \<Rightarrow> (string \<times> nat \<times> nat) list \<Rightarrow>
    py_error + (string \<times> string) list" where
  "split_sections cfg text [] = Inr []"
| "split_sections cfg text ((section_name, start_pos, end_pos) # rest) =
     (let section_text = strip (take (end_pos - start_pos) (drop start_pos text))
      in case (if section_text \<noteq> [] then recursive_split cfg section_text section_name
               else Inr []) of
           Inl e \<Rightarrow> Inl e
         | Inr section_chunks \<Rightarrow>
             (case split_sections cfg text rest of
                Inl e \<Rightarrow> Inl e
              | Inr later \<Rightarrow> Inr (section_chunks @ later)))"

definition recursive_split_with_sections :: "ChunkConfig \<Rightarrow> string \<Rightarrow>
    (string \<times> nat \<times> nat) list \<Rightarrow> py_error + (string \<times> string) list" where
  "recursive_split_with_sections cfg text sections =
     (case (if sections \<noteq> [] \<and> fst (snd (hd sections)) > 0 then
              (let pre_section_text = strip (take (fst (snd (hd sections))) text)
               in if pre_section_text \<noteq> []
                  then recursive_split cfg pre_section_text ''preamble'' else Inr [])
            else Inr []) of
        Inl e \<Rightarrow> Inl e
      | Inr pre_chunks \<Rightarrow>
          (case split_sections cfg text sections of
             Inl e \<Rightarrow> Inl e
           | Inr section_chunks \<Rightarrow> Inr (pre_chunks @ section_chunks)))"

text \<open>\<open>SemanticChunker.chunk\<close> (its argument \<open>doc_type\<close> is never read).\<close>

definition raw_split :: "(string \<Rightarrow> string \<Rightarrow> bool) \<Rightarrow> ChunkConfig \<Rightarrow> string \<Rightarrow>
    py_error + (string \<times> string) list" where
  "raw_split pattern_match cfg text =
     (let sections = (if section_detection cfg then detect_sections pattern_match text else [])
      in if sections \<noteq> [] then recursive_split_with_sections cfg text sections
         else recursive_split cfg text ''body'')"

definition chunk :: "(string \<Rightarrow> string \<Rightarrow> bool) \<Rightarrow> (nat \<Rightarrow> string) \<Rightarrow> ChunkConfig \<Rightarrow>
    string \<Rightarrow> string \<Rightarrow> py_error + Chunk list" where
  "chunk pattern_match uuid cfg text src =
     (if text = [] \<or> strip text = [] then Inr []
      else
        (case raw_split pattern_match cfg text of
           Inl e \<Rightarrow> Inl e
         | Inr raw_chunks \<Rightarrow>
             Inr (create_chunks uuid (apply_overlap cfg raw_chunks) src)))"

subsection \<open>Vocabulary for the length bound\<close>

text \<open>
  A below-minimum remainder appended to the previous chunk adds the separator (at most two
  characters) and fewer than \<open>min_chunk_size\<close> characters: at most \<open>slack\<close>. The nesting
  of merge passes is bounded by the number of separators that occur in the text.
\<close>

definition slack :: "ChunkConfig \<Rightarrow> int" where
  "slack cfg = max 0 (min_chunk_size cfg + 1)"

definition seps_in :: "string \<Rightarrow> nat" where
  "seps_in t = length (filter (\<lambda>sep. sublist sep t) separators)"

definition all_within :: "ChunkConfig \<Rightarrow> nat \<Rightarrow> (string \<times> string) list \<Rightarrow> bool" where
  "all_within cfg n chunks =
     list_all (\<lambda>c. int (length (fst c)) \<le> chunk_size cfg + int n * slack cfg) chunks"

section \<open>Metadata enricher\<close>

record EnricherConfig =
  semantic_tagging :: bool
  hierarchical_ids :: bool
  extract_page_numbers :: bool

definition default_EnricherConfig :: EnricherConfig where
  "default_EnricherConfig =
     \<lparr>semantic_tagging = False, hierarchical_ids = True, extract_page_numbers = True\<rparr>"

text \<open>
  The document metadata is a dictionary: \<open>page_map\<close> (character offset to page) and
  \<open>chunk_offsets\<close> (chunk ID to start offset) are \<open>None\<close> when the key is absent, and the
  dictionary may hold other keys. Offsets are modelled as integers. An empty dictionary is
  false.
\<close>

record PdfMetadata =
  page_map :: "(int \<times> int) list option"
  chunk_offsets :: "(string \<times> int) list option"
  other_keys :: bool

definition truthy :: "PdfMetadata option \<Rightarrow> bool" where
  "truthy pdf_metadata =
     (case pdf_metadata of
        None \<Rightarrow> False
      | Some m \<Rightarrow> page_map m \<noteq> None \<or> chunk_offsets m \<noteq> None \<or> other_keys m)"

text \<open>The loop over \<open>sorted(page_map.items())\<close>: the first boundary, in ascending offset
  order, that the chunk start has reached.\<close>

fun page_loop :: "int \<Rightarrow> (int \<times> int) list \<Rightarrow> int" where
  "page_loop chunk_start [] = 0"
| "page_loop chunk_start ((offset, pg) # rest) =
     (if chunk_start \<ge> offset then pg else page_loop chunk_start rest)"

text \<open>
  \<open>_extract_page_number\<close>; \<open>page_marker text\<close> is the library's case-insensitive search for
  the word \<open>page\<close> followed by a number, giving that number.
\<close>

definition extract_page_number :: "(string \<Rightarrow> int option) \<Rightarrow> Chunk \<Rightarrow> PdfMetadata \<Rightarrow> int" where
  "extract_page_number page_marker a_chunk pdf_metadata =
     (let pmap = (case page_map pdf_metadata of None \<Rightarrow> [] | Some m \<Rightarrow> m)
      in if pmap = [] then
           (case page_marker (c_text a_chunk) of Some n \<Rightarrow> n | None \<Rightarrow> 0)
         else
           (let offsets = (case chunk_offsets pdf_metadata of None \<Rightarrow> [] | Some m \<Rightarrow> m);
                chunk_start = (case map_of offsets (c_id a_chunk) of None \<Rightarrow> 0 | Some x \<Rightarrow> x)
            in page_loop chunk_start (sort_key fst pmap)))"

text \<open>\<open>kw in text\<close> for strings is \<open>sublist kw text\<close>.\<close>

definition detect_section :: "(string \<Rightarrow> string \<Rightarrow> bool) \<Rightarrow> string \<Rightarrow> string option" where
  "detect_section pattern_match text =
     (let lines = take 5 (split_sep [CHR 0x0A] text)
      in case List.map_filter (\<lambda>line. first_section pattern_match (strip line)) lines of
           section_name # _ \<Rightarrow> Some section_name
         | [] \<Rightarrow>
             (let text_lower = lower text
              in if list_ex (\<lambda>kw. sublist kw text_lower)
                      [''we propose'', ''this paper'', ''we present'', ''in this work'']
                 then Some ''introduction''
                 else if list_ex (\<lambda>kw. sublist kw text_lower)
                      [''experiment'', ''dataset'', ''training'', ''evaluation'']
                 then Some ''methods''
                 else if list_ex (\<lambda>kw. sublist kw text_lower)
                      [''accuracy'', ''performance'', ''table'', ''figure'', ''results show'']
                 then Some ''results''
                 else if list_ex (\<lambda>kw. sublist kw text_lower)
                      [''limitation'', ''future work'', ''in conclusion'', ''we have shown'']
                 then Some ''conclusion''
                 else None))"

text \<open>\<open>f"{index:04d}"\<close>: decimal, padded with zeros to four digits.\<close>

definition pad4 :: "nat \<Rightarrow> string" where
  "pad4 n = replicate (4 - length (str_nat n)) CHR ''0'' @ str_nat n"

text \<open>\<open>_generate_hierarchical_id\<close>; \<open>md5 s\<close> is \<open>hashlib.md5(s.encode()).hexdigest()\<close>.\<close>

definition generate_hierarchical_id :: "(string \<Rightarrow> string) \<Rightarrow> string \<Rightarrow> string \<Rightarrow> nat \<Rightarrow>
    string \<Rightarrow> string" where
  "generate_hierarchical_id md5 src section idx text =
     (let source_hash = take 8 (md5 src);
          content_hash = take 6 (md5 text);
          section_clean =
            (if section \<noteq> [] then lower (map (\<lambda>c. if c = CHR '' '' then CHR ''_'' else c) section)
             else ''unknown'')
      in source_hash @ ''_'' @ section_clean @ ''_'' @ pad4 idx @ ''_'' @ content_hash)"

record Enricher =
  e_config :: EnricherConfig
  e_pattern_match :: "string \<Rightarrow> string \<Rightarrow> bool"
  e_page_marker :: "string \<Rightarrow> int option"
  e_md5 :: "string \<Rightarrow> string"

definition enrich_chunk :: "Enricher \<Rightarrow> Chunk \<Rightarrow> nat \<Rightarrow> PdfMetadata option \<Rightarrow> Chunk" where
  "enrich_chunk self a_chunk idx pdf_metadata =
     (let meta0 = c_metadata a_chunk;
          meta1 =
            (case pdf_metadata of
               Some m \<Rightarrow>
                 if extract_page_numbers (e_config self) \<and> truthy pdf_metadata
                 then meta0\<lparr>page := extract_page_number (e_page_marker self) a_chunk m\<rparr>
                 else meta0
             | None \<Rightarrow> meta0);
          new_metadata =
            (if section_label meta1 = [] \<or> section_label meta1 = ''body'' then
               (case detect_section (e_pattern_match self) (c_text a_chunk) of
                  Some section \<Rightarrow>
                    if section \<noteq> [] then meta1\<lparr>section_label := section\<rparr> else meta1
                | None \<Rightarrow> meta1)
             else meta1);
          new_id =
            (if hierarchical_ids (e_config self)
             then generate_hierarchical_id (e_md5 self) (source (c_metadata a_chunk))
                    (section_label new_metadata) idx (c_text a_chunk)
             else c_id a_chunk)
      in \<lparr>c_id = new_id, c_text = c_text a_chunk, c_metadata = new_metadata\<rparr>)"

text \<open>\<open>_assign_parent_relationships\<close>: the dictionary from a section to its first chunk's ID
  is threaded through the loop.\<close>

fun parent_loop :: "(string \<rightharpoonup> string) \<Rightarrow> Chunk list \<Rightarrow> Chunk list" where
  "parent_loop section_first_chunk [] = []"
| "parent_loop section_first_chunk (a_chunk # rest) =
     (let section = section_label (c_metadata a_chunk)
      in (case section_first_chunk section of
            None \<Rightarrow>
              \<lparr>c_id = c_id a_chunk, c_text = c_text a_chunk,
               c_metadata = (c_metadata a_chunk)\<lparr>parent_chunk_id := None\<rparr>\<rparr>
              # parent_loop (section_first_chunk(section \<mapsto> c_id a_chunk)) rest
          | Some parent_id \<Rightarrow>
              \<lparr>c_id = c_id a_chunk, c_text = c_text a_chunk,
               c_metadata = (c_metadata a_chunk)\<lparr>parent_chunk_id := Some parent_id\<rparr>\<rparr>
              # parent_loop section_first_chunk rest))"

definition assign_parent_relationships :: "Chunk list \<Rightarrow> Chunk list" where
  "assign_parent_relationships cs = parent_loop Map.empty cs"

definition enrich :: "Enricher \<Rightarrow> Chunk list \<Rightarrow> PdfMetadata option \<Rightarrow> Chunk list" where
  "enrich self cs pdf_metadata =
     (if cs = [] then []
      else
        (let enriched = map (\<lambda>i. enrich_chunk self (cs ! i) i pdf_metadata) [0 ..< length cs]
         in if hierarchical_ids (e_config self) then assign_parent_relationships enriched
            else enriched))"

text \<open>
  The page assignment as the specification words it: the page of the highest boundary whose
  offset does not exceed the chunk start, and 0 when there is none.
\<close>

definition page_of_highest_boundary :: "int \<Rightarrow> (int \<times> int) list \<Rightarrow> int" where
  "page_of_highest_boundary chunk_start pmap =
     (case filter (\<lambda>(offset, pg). offset \<le> chunk_start) (sort_key fst pmap) of
        [] \<Rightarrow> 0
      | reached \<Rightarrow> snd (last reached))"

section \<open>Properties of the reranker\<close>

lemma text_similarity_commute: "text_similarity a b = text_similarity b a"
  by (simp add: text_similarity_def Let_def Int_commute Un_commute disj_commute)

lemma diversity_loop_sorted_wrt:
  "sorted_wrt (\<lambda>a b. text_similarity (r_text a) (r_text b) \<le> diversity_threshold cfg) diverse \<Longrightarrow>
   sorted_wrt (\<lambda>a b. text_similarity (r_text a) (r_text b) \<le> diversity_threshold cfg)
     (diversity_loop cfg diverse rest)"
proof (induction rest arbitrary: diverse)
  case Nil
  then show ?case by simp
next
  case (Cons result rest)
  show ?case
  proof (cases "too_similar cfg result diverse")
    case True
    with Cons show ?thesis by simp
  next
    case False
    then have "\<forall>s\<in>set diverse. text_similarity (r_text s) (r_text result) \<le> diversity_threshold cfg"
      by (auto simp: too_similar_def list_ex_iff not_less text_similarity_commute)
    with Cons.prems have "sorted_wrt (\<lambda>a b. text_similarity (r_text a) (r_text b) \<le> diversity_threshold cfg)
        (diverse @ [result])"
      by (simp add: sorted_wrt_append)
    from Cons.IH [OF this] False show ?thesis by simp
  qed
qed

lemma diversity_loop_hd:
  "diversity_loop cfg (d # ds) rest \<noteq> [] \<and> hd (diversity_loop cfg (d # ds) rest) = d"
  by (induction rest arbitrary: ds) auto

text \<open>
  C10: whatever the input list, any two distinct results that the diversity filter keeps have a
  word-set Jaccard similarity (\<open>_text_similarity\<close>) of at most the configured diversity
  threshold, and the first input result is always kept.
\<close>

theorem filter_diversity_pairwise:
  fixes results :: "('m, 'a) RetrievalResult_scheme list" and cfg :: RerankConfig
  defines "kept \<equiv> filter_diversity cfg results"
  shows "(\<forall>i j. i < length kept \<and> j < length kept \<and> i \<noteq> j \<longrightarrow>
            text_similarity (r_text (kept ! i)) (r_text (kept ! j)) \<le> diversity_threshold cfg)
         \<and> (results \<noteq> [] \<longrightarrow> kept \<noteq> [] \<and> hd kept = hd results)"
proof -
  let ?P = "\<lambda>a b. text_similarity (r_text a) (r_text b) \<le> diversity_threshold cfg"
  have sw: "sorted_wrt ?P kept"
    unfolding kept_def filter_diversity_def
    by (cases results) (simp_all add: diversity_loop_sorted_wrt)
  have pair: "?P (kept ! i) (kept ! j)" if "i < length kept" "j < length kept" "i \<noteq> j" for i j
  proof (cases "i < j")
    case True
    with sw that show ?thesis by (simp add: sorted_wrt_iff_nth_less)
  next
    case False
    with that have "j < i" by simp
    with sw that have "?P (kept ! j) (kept ! i)" by (simp add: sorted_wrt_iff_nth_less)
    then show ?thesis by (simp add: text_similarity_commute)
  qed
  have first: "results \<noteq> [] \<longrightarrow> kept \<noteq> [] \<and> hd kept = hd results"
    unfolding kept_def filter_diversity_def
    by (cases results) (simp_all add: diversity_loop_hd)
  from pair first show ?thesis by blast
qed


theorem filter_diversity_pairwise_witness:
  "length (filter_diversity default_RerankConfig
      [\<lparr>chunk_id = ''a'', r_text = ''the cat sat on the mat'', score = 9 / 10,
          r_source = ''hybrid'', r_metadata = ()\<rparr>,
       \<lparr>chunk_id = ''b'', r_text = ''The cat sat on  the MAT'', score = 8 / 10,
          r_source = ''hybrid'', r_metadata = ()\<rparr>,
       \<lparr>chunk_id = ''c'', r_text = ''dogs bark on the mat'', score = 7 / 10,
          r_source = ''hybrid'', r_metadata = ()\<rparr>]) = 2
   \<and> text_similarity ''the cat sat on the mat'' ''dogs bark on the mat''
        \<le> diversity_threshold default_RerankConfig
   \<and> chunk_id (hd (filter_diversity default_RerankConfig
      [\<lparr>chunk_id = ''a'', r_text = ''the cat sat on the mat'', score = 9 / 10,
          r_source = ''hybrid'', r_metadata = ()\<rparr>,
       \<lparr>chunk_id = ''b'', r_text = ''The cat sat on  the MAT'', score = 8 / 10,
          r_source = ''hybrid'', r_metadata = ()\<rparr>,
       \<lparr>chunk_id = ''c'', r_text = ''dogs bark on the mat'', score = 7 / 10,
          r_source = ''hybrid'', r_metadata = ()\<rparr>])) = ''a''"
proof -
  let ?a = "\<lparr>chunk_id = ''a'', r_text = ''the cat sat on the mat'', score = 9 / 10,
          r_source = ''hybrid'', r_metadata = ()\<rparr>"
  let ?b = "\<lparr>chunk_id = ''b'', r_text = ''The cat sat on  the MAT'', score = 8 / 10,
          r_source = ''hybrid'', r_metadata = ()\<rparr>"
  let ?c = "\<lparr>chunk_id = ''c'', r_text = ''dogs bark on the mat'', score = 7 / 10,
          r_source = ''hybrid'', r_metadata = ()\<rparr>"
  have kept: "filter_diversity default_RerankConfig [?a, ?b, ?c] = [?a, ?c]"
    by code_simp
  have "(0::nat) < length [?a, ?c] \<and> (1::nat) < length [?a, ?c] \<and> (0::nat) \<noteq> 1"
    by simp
  with filter_diversity_pairwise [of default_RerankConfig "[?a, ?b, ?c]"]
  show ?thesis
    unfolding kept by fastforce
qed

text \<open>
  C4: a reranker built without a language-model client and with the default configuration
  returns the empty list on every non-empty input whose scores are all at most \<open>1/61\<close>, as
  the scores of a default-weight fusion are (lemma \<open>rrf_default_scores_bounded\<close> below): the
  scores stay as they are and the threshold \<open>0.5\<close> removes every candidate.
\<close>

theorem rerank_without_llm_drops_fused:
  fixes results :: "('m, 'a) RetrievalResult_scheme list"
  assumes "results \<noteq> []" and "\<forall>r \<in> set results. score r \<le> 1 / 61"
  shows "score_relevance None py_float results query = Inr results
       \<and> rerank None py_float default_RerankConfig results query top_k = Inr []"
proof -
  have "filter (\<lambda>r. score r \<ge> relevance_threshold default_RerankConfig) results = []"
    using assms(2) by (auto simp: filter_empty_conv default_RerankConfig_def)
  moreover have "truncate_top_k top_k ([] :: ('m, 'a) RetrievalResult_scheme list) = []"
    by (simp add: truncate_top_k_def slice_to_def split: option.splits)
  ultimately have "rerank None py_float default_RerankConfig results query top_k = Inr []"
    using assms(1)
    by (simp add: rerank_def score_relevance_def filter_diversity_def limit_context_def
        default_RerankConfig_def)
  then show ?thesis by (simp add: score_relevance_def)
qed

theorem rerank_without_llm_drops_fused_witness:
  "[\<lparr>chunk_id = ''a'', r_text = ''the cat'', score = 1 / 61, r_source = ''hybrid'',
      r_metadata = ()\<rparr>] \<noteq> []
   \<and> rerank None (\<lambda>s. None) default_RerankConfig
        [\<lparr>chunk_id = ''a'', r_text = ''the cat'', score = 1 / 61, r_source = ''hybrid'',
           r_metadata = ()\<rparr>] ''cat'' (Some 5) = Inr []"
  using rerank_without_llm_drops_fused [of
      "[\<lparr>chunk_id = ''a'', r_text = ''the cat'', score = 1 / 61, r_source = ''hybrid'',
          r_metadata = ()\<rparr>]" "\<lambda>s. None" "''cat''" "Some 5"]
  by simp





section \<open>Properties of Reciprocal Rank Fusion\<close>

lemma score_of_dict_add:
  "score_of (dict_add scores c x) cid = score_of scores cid + (if c = cid then x else 0)"
  by (induction scores) (auto simp: score_of_def)

lemma keys_dict_add: "fst ` set (dict_add scores c x) = insert c (fst ` set scores)"
  by (induction scores c x rule: dict_add.induct) auto

lemma map_of_dict_add_dom: "dom (map_of (dict_add scores c x)) = insert c (dom (map_of scores))"
  by (simp add: dom_map_of_conv_image_fst keys_dict_add)

lemma rrf_pass_returns:
  "0 \<le> k \<Longrightarrow> \<exists>st'. rrf_pass weight k rank l st = Inr st'"
proof (induction l arbitrary: rank st)
  case Nil
  then show ?case by simp
next
  case (Cons r rest)
  obtain scores chunks where st: "st = (scores, chunks)" by (cases st)
  from Cons.prems have "k + int rank + 1 \<noteq> 0" by simp
  with Cons.IH [OF Cons.prems] st show ?case by simp
qed

lemma rrf_pass_scores:
  "rrf_pass weight k rank l (scores, chunks) = Inr (scores', chunks') \<Longrightarrow>
   score_of scores' cid = score_of scores cid + rrf_contrib weight k rank l cid"
proof (induction l arbitrary: rank scores chunks)
  case Nil
  then show ?case by simp
next
  case (Cons r rest)
  from Cons.prems have "k + int rank + 1 \<noteq> 0" by (auto split: if_splits)
  with Cons.prems Cons.IH show ?case
    by (simp add: score_of_dict_add)
qed

lemma rrf_pass_keys:
  "rrf_pass weight k rank l (scores, chunks) = Inr (scores', chunks') \<Longrightarrow>
   fst ` set scores' = fst ` set scores \<union> chunk_id ` set l"
proof (induction l arbitrary: rank scores chunks)
  case Nil
  then show ?case by simp
next
  case (Cons r rest)
  from Cons.prems have "k + int rank + 1 \<noteq> 0" by (auto split: if_splits)
  with Cons.prems Cons.IH show ?case
    by (simp add: keys_dict_add)
qed

lemma rrf_pass_dom:
  "rrf_pass weight k rank l (scores, chunks) = Inr (scores', chunks') \<Longrightarrow>
   dom chunks' = dom chunks \<union> chunk_id ` set l"
proof (induction l arbitrary: rank scores chunks)
  case Nil
  then show ?case by simp
next
  case (Cons r rest)
  from Cons.prems have nz: "k + int rank + 1 \<noteq> 0" by (auto split: if_splits)
  show ?case
  proof (cases "chunks (chunk_id r)")
    case None
    with Cons.prems nz have "rrf_pass weight k (Suc rank) rest
        (dict_add scores (chunk_id r) (weight / real_of_int (k + int rank + 1)),
         chunks(chunk_id r \<mapsto> r)) = Inr (scores', chunks')"
      by simp
    then have "dom chunks' = dom (chunks(chunk_id r \<mapsto> r)) \<union> chunk_id ` set rest"
      by (rule Cons.IH)
    then show ?thesis by simp
  next
    case (Some x)
    then have in_dom: "chunk_id r \<in> dom chunks" by auto
    from Some Cons.prems nz have "rrf_pass weight k (Suc rank) rest
        (dict_add scores (chunk_id r) (weight / real_of_int (k + int rank + 1)), chunks)
        = Inr (scores', chunks')"
      by simp
    then have "dom chunks' = dom chunks \<union> chunk_id ` set rest"
      by (rule Cons.IH)
    with in_dom show ?thesis by auto
  qed
qed

lemma rrf_pass_ids:
  "rrf_pass weight k rank l (scores, chunks) = Inr (scores', chunks') \<Longrightarrow>
   (\<And>c x. chunks c = Some x \<Longrightarrow> chunk_id x = c) \<Longrightarrow>
   chunks' c = Some x \<Longrightarrow> chunk_id x = c"
proof (induction l arbitrary: rank scores chunks)
  case Nil
  then show ?case by simp
next
  case (Cons r rest)
  from Cons.prems(1) have nz: "k + int rank + 1 \<noteq> 0" by (auto split: if_splits)
  show ?case
  proof (cases "chunks (chunk_id r)")
    case None
    have upd: "\<And>c x. (chunks(chunk_id r \<mapsto> r)) c = Some x \<Longrightarrow> chunk_id x = c"
      using Cons.prems(2) by (auto split: if_splits)
    from None Cons.prems(1) nz have "rrf_pass weight k (Suc rank) rest
        (dict_add scores (chunk_id r) (weight / real_of_int (k + int rank + 1)),
         chunks(chunk_id r \<mapsto> r)) = Inr (scores', chunks')"
      by simp
    from Cons.IH [OF this upd Cons.prems(3)] show ?thesis .
  next
    case (Some y)
    with Cons.prems(1) nz have "rrf_pass weight k (Suc rank) rest
        (dict_add scores (chunk_id r) (weight / real_of_int (k + int rank + 1)), chunks)
        = Inr (scores', chunks')"
      by simp
    from Cons.IH [OF this Cons.prems(2) Cons.prems(3)] show ?thesis .
  qed
qed

lemma build_results_ok:
  assumes "set ids \<subseteq> dom chunks" and "set ids \<subseteq> fst ` set scores"
    and "\<forall>c r. chunks c = Some r \<longrightarrow> chunk_id r = c"
  shows "\<exists>results. build_results scores chunks ids = Inr results
     \<and> map chunk_id results = ids
     \<and> (\<forall>r \<in> set results. score r = score_of scores (chunk_id r) \<and> r_source r = ''hybrid'')"
  using assms(1,2)
proof (induction ids)
  case Nil
  then show ?case by simp
next
  case (Cons cid rest)
  then obtain results where
    rest: "build_results scores chunks rest = Inr results" "map chunk_id results = rest"
      "\<forall>r \<in> set results. score r = score_of scores (chunk_id r) \<and> r_source r = ''hybrid''"
    by auto
  from Cons.prems obtain result where c: "chunks cid = Some result" by auto
  from Cons.prems have "cid \<in> dom (map_of scores)"
    by (simp add: dom_map_of_conv_image_fst)
  then obtain s where s: "map_of scores cid = Some s" by auto
  from c assms(3) have "chunk_id result = cid" by simp
  with rest c s show ?case
    by (simp add: score_of_def)
qed

lemma rrf_fusion_scores:
  assumes "0 \<le> k"
  shows "\<exists>fused. rrf_fusion cfg bm25_results vector_results k = Inr fused
     \<and> set (map chunk_id fused) = chunk_id ` set bm25_results \<union> chunk_id ` set vector_results
     \<and> (\<forall>r \<in> set fused.
           score r = rrf_contrib (bm25_weight cfg) k 0 bm25_results (chunk_id r)
                   + rrf_contrib (vector_weight cfg) k 0 vector_results (chunk_id r)
           \<and> r_source r = ''hybrid'')"
proof -
  from rrf_pass_returns [OF assms] obtain scores1 chunks1 where
    p1: "rrf_pass (bm25_weight cfg) k 0 bm25_results ([], Map.empty) = Inr (scores1, chunks1)"
    by (metis surj_pair)
  from rrf_pass_returns [OF assms] obtain scores2 chunks2 where
    p2: "rrf_pass (vector_weight cfg) k 0 vector_results (scores1, chunks1) = Inr (scores2, chunks2)"
    by (metis surj_pair)
  have s1: "score_of scores1 cid = rrf_contrib (bm25_weight cfg) k 0 bm25_results cid" for cid
    using rrf_pass_scores [OF p1, of cid] by (simp add: score_of_def)
  have s2: "score_of scores2 cid = rrf_contrib (bm25_weight cfg) k 0 bm25_results cid
                + rrf_contrib (vector_weight cfg) k 0 vector_results cid" for cid
    using rrf_pass_scores [OF p2, of cid] s1 by simp
  have k2: "fst ` set scores2 = chunk_id ` set bm25_results \<union> chunk_id ` set vector_results"
    using rrf_pass_keys [OF p1] rrf_pass_keys [OF p2] by simp
  have d2: "dom chunks2 = chunk_id ` set bm25_results \<union> chunk_id ` set vector_results"
    using rrf_pass_dom [OF p1] rrf_pass_dom [OF p2] by simp
  have i1: "chunk_id x = c" if "chunks1 c = Some x" for c x
    using rrf_pass_ids [OF p1 _ that] by simp
  have i2: "\<forall>c x. chunks2 c = Some x \<longrightarrow> chunk_id x = c"
    using rrf_pass_ids [OF p2] i1 by blast
  let ?ids = "map fst (sort_desc snd scores2)"
  have ids: "set ?ids = chunk_id ` set bm25_results \<union> chunk_id ` set vector_results"
    using k2 by (simp add: sort_desc_def)
  have "set ?ids \<subseteq> dom chunks2" "set ?ids \<subseteq> fst ` set scores2"
    using ids d2 k2 by simp_all
  from build_results_ok [OF this i2]
  obtain fused where
    f: "build_results scores2 chunks2 ?ids = Inr fused" "map chunk_id fused = ?ids"
      "\<forall>r \<in> set fused. score r = score_of scores2 (chunk_id r) \<and> r_source r = ''hybrid''"
    by blast
  have "rrf_fusion cfg bm25_results vector_results k = Inr fused"
    using p1 p2 f(1) by (simp add: rrf_fusion_def)
  moreover have "set (map chunk_id fused) = chunk_id ` set bm25_results \<union> chunk_id ` set vector_results"
    using f(2) ids by simp
  moreover have "\<forall>r \<in> set fused.
           score r = rrf_contrib (bm25_weight cfg) k 0 bm25_results (chunk_id r)
                   + rrf_contrib (vector_weight cfg) k 0 vector_results (chunk_id r)
           \<and> r_source r = ''hybrid''"
    using f(3) s2 by simp
  ultimately show ?thesis by blast
qed


lemma rrf_contrib_absent:
  "cid \<notin> chunk_id ` set l \<Longrightarrow> rrf_contrib weight k rank l cid = 0"
  by (induction l arbitrary: rank) auto


lemma rrf_contrib_once_le:
  assumes "0 \<le> weight" "0 \<le> k"
  shows "count_list (map chunk_id l) cid \<le> 1 \<Longrightarrow>
         rrf_contrib weight k rank l cid \<le> weight / real_of_int (k + int rank + 1)"
proof (induction l arbitrary: rank)
  case Nil
  with assms show ?case by simp
next
  case (Cons r rest)
  show ?case
  proof (cases "chunk_id r = cid")
    case True
    with Cons.prems have "count_list (map chunk_id rest) cid = 0" by simp
    then have "cid \<notin> chunk_id ` set rest" by (simp add: count_list_0_iff)
    then show ?thesis using True by (simp add: rrf_contrib_absent)
  next
    case False
    with Cons.prems have "count_list (map chunk_id rest) cid \<le> 1" by simp
    from Cons.IH [OF this, of "Suc rank"]
    have "rrf_contrib weight k (Suc rank) rest cid \<le> weight / real_of_int (k + int (Suc rank) + 1)" .
    also have "\<dots> \<le> weight / real_of_int (k + int rank + 1)"
      using assms by (intro frac_le) simp_all
    finally show ?thesis using False by simp
  qed
qed

lemma distinct_count_list_le_1: "distinct xs \<Longrightarrow> count_list xs x \<le> 1"
  by (induction xs) (auto simp: count_list_0_iff)

lemma rrf_contrib_distinct_le:
  assumes "0 \<le> weight" "0 \<le> k" "distinct (map chunk_id l)"
  shows "rrf_contrib weight k rank l cid \<le> weight / real_of_int (k + int rank + 1)"
  using assms(1,2) distinct_count_list_le_1 [OF assms(3)] by (rule rrf_contrib_once_le)






text \<open>The bound on default-weight fused scores that C4 starts from.\<close>

lemma rrf_default_scores_bounded:
  fixes bm25_results vector_results :: "('m, 'a) RetrievalResult_scheme list"
  assumes "distinct (map chunk_id bm25_results)" "distinct (map chunk_id vector_results)"
    and "rrf_fusion default_HybridConfig bm25_results vector_results 60 = Inr fused"
  shows "\<forall>r \<in> set fused. score r \<le> 1 / 61"
proof
  fix r assume r: "r \<in> set fused"
  from rrf_fusion_scores [of 60 default_HybridConfig bm25_results vector_results] assms(3) r
  have "score r = rrf_contrib (3 / 10) 60 0 bm25_results (chunk_id r)
                + rrf_contrib (7 / 10) 60 0 vector_results (chunk_id r)"
    by (auto simp: default_HybridConfig_def)
  moreover have "rrf_contrib (3 / 10) 60 0 bm25_results (chunk_id r) \<le> (3 / 10) / real_of_int (60 + int 0 + 1)"
    using assms(1) by (intro rrf_contrib_distinct_le) simp_all
  moreover have "rrf_contrib (7 / 10) 60 0 vector_results (chunk_id r) \<le> (7 / 10) / real_of_int (60 + int 0 + 1)"
    using assms(2) by (intro rrf_contrib_distinct_le) simp_all
  ultimately show "score r \<le> 1 / 61" by simp
qed

section \<open>Properties of the lexical index\<close>

lemma insort_key_stable_order:
  fixes f :: "'a \<Rightarrow> 'k::linorder"
  assumes "sorted_wrt (\<lambda>a b. f a < f b \<or> (f a = f b \<and> R a b)) ys"
    and "\<forall>y \<in> set ys. R x y"
  shows "sorted_wrt (\<lambda>a b. f a < f b \<or> (f a = f b \<and> R a b)) (insort_key f x ys)"
  using assms
proof (induction ys)
  case Nil
  then show ?case by simp
next
  case (Cons y ys)
  show ?case
  proof (cases "f x \<le> f y")
    case True
    have "f x < f z \<or> (f x = f z \<and> R x z)" if "z \<in> set (y # ys)" for z
    proof -
      from that Cons.prems(1) have "f y \<le> f z" by auto
      with True have "f x \<le> f z" by simp
      moreover from that Cons.prems(2) have "R x z" by auto
      ultimately show ?thesis by auto
    qed
    with True Cons.prems(1) show ?thesis by simp
  next
    case False
    then have "f y < f x" by simp
    moreover from Cons have "sorted_wrt (\<lambda>a b. f a < f b \<or> (f a = f b \<and> R a b)) (insort_key f x ys)"
      by simp
    ultimately show ?thesis using False Cons.prems(1) by (auto simp: set_insort_key)
  qed
qed

lemma sort_key_stable_order:
  fixes f :: "'a \<Rightarrow> 'k::linorder"
  assumes "sorted_wrt R xs"
  shows "sorted_wrt (\<lambda>a b. f a < f b \<or> (f a = f b \<and> R a b)) (sort_key f xs)"
  using assms
proof (induction xs)
  case Nil
  then show ?case by simp
next
  case (Cons x xs)
  then have "sorted_wrt (\<lambda>a b. f a < f b \<or> (f a = f b \<and> R a b)) (sort_key f xs)"
    and "\<forall>y \<in> set (sort_key f xs). R x y"
    by auto
  then show ?case by (simp add: insort_key_stable_order)
qed

lemma sort_desc_stable_order:
  assumes "sorted_wrt R xs"
  shows "sorted_wrt (\<lambda>a b. key b < key a \<or> (key a = key b \<and> R a b)) (sort_desc key xs)"
  using sort_key_stable_order [OF assms, of "\<lambda>x. - key x"]
  by (simp add: sort_desc_def)

lemma sorted_wrt_slice_to: "sorted_wrt P xs \<Longrightarrow> sorted_wrt P (slice_to k xs)"
  by (simp add: slice_to_def sorted_wrt_take)

lemma set_slice_to: "set (slice_to k xs) \<subseteq> set xs"
  by (auto simp: slice_to_def dest: in_set_takeD)

lemma enumerate_sorted: "sorted_wrt (\<lambda>a b. fst a < fst b) (zip [0 ..< length scores] scores)"
proof -
  have "map fst (zip [0 ..< length scores] scores) = [0 ..< length scores]"
    by (rule map_fst_zip) simp
  then have "sorted_wrt (<) (map fst (zip [0 ..< length scores] scores))"
    by (simp only: sorted_wrt_upt)
  then show ?thesis by (simp only: sorted_wrt_map)
qed

lemma top_indices_sorted:
  "sorted_wrt (\<lambda>a b. snd b < snd a \<or> (snd a = snd b \<and> fst a < fst b)) (top_indices scores top_k)"
  unfolding top_indices_def Let_def
  by (intro sorted_wrt_slice_to sort_desc_stable_order enumerate_sorted)

lemma top_indices_set:
  assumes "p \<in> set (top_indices scores top_k)"
  shows "fst p < length scores \<and> snd p = scores ! fst p"
proof -
  from assms have "p \<in> set (slice_to top_k (sort_desc snd (zip [0 ..< length scores] scores)))"
    by (simp add: top_indices_def)
  with set_slice_to [of top_k "sort_desc snd (zip [0 ..< length scores] scores)"]
  have "p \<in> set (sort_desc snd (zip [0 ..< length scores] scores))"
    by (rule subsetD)
  then have "p \<in> set (zip [0 ..< length scores] scores)"
    by (simp add: sort_desc_def)
  then obtain n where "n < length scores" "p = zip [0 ..< length scores] scores ! n"
    by (auto simp: in_set_conv_nth)
  then show ?thesis by simp
qed

lemma collect_results_ok:
  "\<forall>p \<in> set ranked. fst p < length cs \<Longrightarrow>
   collect_results cs ranked =
     Inr (map (\<lambda>p. bm25_result (cs ! fst p) (snd p)) (filter (\<lambda>p. 0 < snd p) ranked))"
  by (induction cs ranked rule: collect_results.induct) auto

text \<open>
  C3: \<open>search\<close> returns the empty list when no index has been built or the chunk list is
  empty (also right after construction and after \<open>build_index\<close> on no chunks). On a built
  index, whose scorer returns one score per indexed chunk, it returns the chunks at the
  positions \<open>ranked\<close>: every score is strictly positive, and the positions are in order of
  descending score, equal scores in original chunk order.
\<close>

theorem search_positive_ranked:
  fixes self :: BM25Index and findall_words :: "string \<Rightarrow> string list"
  shows "(self_index self = None \<or> self_chunks self = []
            \<longrightarrow> search findall_words self query top_k = Inr [])
    \<and> search findall_words (init_BM25Index cfg) query top_k = Inr []
    \<and> search findall_words (build_index BM25Okapi findall_words self []) query top_k = Inr []
    \<and> (\<forall>bm25. self_index self = Some bm25
           \<and> length (bm25 (tokenize findall_words query)) = length (self_chunks self) \<longrightarrow>
         (\<exists>ranked.
            search findall_words self query top_k =
              Inr (map (\<lambda>p. bm25_result (self_chunks self ! fst p) (snd p)) ranked)
          \<and> (\<forall>p \<in> set ranked. 0 < snd p \<and> fst p < length (self_chunks self)
                \<and> snd p = bm25 (tokenize findall_words query) ! fst p)
          \<and> sorted_wrt (\<lambda>p q. snd q < snd p \<or> (snd p = snd q \<and> fst p < fst q)) ranked))"
proof -
  have a: "self_index self = None \<or> self_chunks self = []
            \<longrightarrow> search findall_words self query top_k = Inr []"
    by (auto simp: search_def split: option.splits)
  have b: "search findall_words (init_BM25Index cfg) query top_k = Inr []"
    by (simp add: search_def init_BM25Index_def)
  have c: "search findall_words (build_index BM25Okapi findall_words self []) query top_k = Inr []"
    by (simp add: search_def build_index_def)
  have d: "\<exists>ranked.
            search findall_words self query top_k =
              Inr (map (\<lambda>p. bm25_result (self_chunks self ! fst p) (snd p)) ranked)
          \<and> (\<forall>p \<in> set ranked. 0 < snd p \<and> fst p < length (self_chunks self)
                \<and> snd p = bm25 (tokenize findall_words query) ! fst p)
          \<and> sorted_wrt (\<lambda>p q. snd q < snd p \<or> (snd p = snd q \<and> fst p < fst q)) ranked"
    if idx: "self_index self = Some bm25"
      and len: "length (bm25 (tokenize findall_words query)) = length (self_chunks self)"
    for bm25
  proof (cases "self_chunks self = []")
    case True
    with idx have "search findall_words self query top_k = Inr []"
      by (simp add: search_def)
    then show ?thesis by (intro exI [of _ "[]"]) simp
  next
    case False
    let ?scores = "bm25 (tokenize findall_words query)"
    let ?top = "top_indices ?scores top_k"
    let ?ranked = "filter (\<lambda>p. 0 < snd p) ?top"
    have in_range: "\<forall>p \<in> set ?top. fst p < length (self_chunks self)"
      using top_indices_set [of _ ?scores top_k] len by auto
    have "search findall_words self query top_k = collect_results (self_chunks self) ?top"
      using idx False by (simp add: search_def)
    then have 1: "search findall_words self query top_k =
        Inr (map (\<lambda>p. bm25_result (self_chunks self ! fst p) (snd p)) ?ranked)"
      using collect_results_ok [OF in_range] by simp
    have 2: "\<forall>p \<in> set ?ranked. 0 < snd p \<and> fst p < length (self_chunks self)
                \<and> snd p = ?scores ! fst p"
      using top_indices_set [of _ ?scores top_k] len by auto
    have 3: "sorted_wrt (\<lambda>p q. snd q < snd p \<or> (snd p = snd q \<and> fst p < fst q)) ?ranked"
      by (intro sorted_wrt_filter top_indices_sorted)
    from 1 2 3 show ?thesis by blast
  qed
  from a b c d show ?thesis by blast
qed

theorem search_positive_ranked_witness:
  "(let cs = map (\<lambda>t. \<lparr>c_id = take 1 t, c_text = t,
             c_metadata = \<lparr>source = ''s'', page = 0, section_label = ''body'', chunk_index = 0,
               parent_chunk_id = None, overlap_with_prev = 0, overlap_with_next = 0,
               semantic_tags = []\<rparr>\<rparr>)
             [''Dogs bark at night'', ''The cat sat on the mat'', ''A cat naps''];
        self = \<lparr>self_config = \<lparr>bm25_k1 = 3 / 2, bm25_b = 3 / 4\<rparr>,
                 self_index = Some (\<lambda>q. [0, 1 / 2, 1 / 2]), self_chunks = cs,
                 self_tokenized_corpus = []\<rparr>
    in search split_ws self ''cat'' 10
         = Inr [bm25_result (cs ! 1) (1 / 2), bm25_result (cs ! 2) (1 / 2)]
     \<and> (\<exists>ranked.
         search split_ws self ''cat'' 10 =
           Inr (map (\<lambda>p. bm25_result (self_chunks self ! fst p) (snd p)) ranked)
       \<and> (\<forall>p \<in> set ranked. 0 < snd p \<and> fst p < length (self_chunks self)
              \<and> snd p = [0, 1 / 2, 1 / 2] ! fst p)
       \<and> sorted_wrt (\<lambda>p q. snd q < snd p \<or> (snd p = snd q \<and> fst p < fst q)) ranked))"
proof -
  define cs where "cs = map (\<lambda>t. \<lparr>c_id = take 1 t, c_text = t,
             c_metadata = \<lparr>source = ''s'', page = 0, section_label = ''body'', chunk_index = 0,
               parent_chunk_id = None, overlap_with_prev = 0, overlap_with_next = 0,
               semantic_tags = []\<rparr>\<rparr>)
             [''Dogs bark at night'', ''The cat sat on the mat'', ''A cat naps'']"
  define self where "self = \<lparr>self_config = \<lparr>bm25_k1 = 3 / 2, bm25_b = 3 / 4\<rparr>,
                 self_index = Some (\<lambda>q :: string list. [0, 1 / 2, 1 / 2 :: real]), self_chunks = cs,
                 self_tokenized_corpus = []\<rparr>"
  have len: "length cs = 3" by (simp add: cs_def)
  have idx: "self_index self = Some (\<lambda>q. [0, 1 / 2, 1 / 2])" and sc: "self_chunks self = cs"
    by (simp_all add: self_def)
  have top: "top_indices [0, 1 / 2, 1 / 2] 10 = [(1, 1 / 2), (2, 1 / 2), (0, 0)]"
    by (simp add: top_indices_def sort_desc_def slice_to_def upt_rec)
  have ne: "cs \<noteq> []" using len by auto
  have ev: "search split_ws self ''cat'' 10
         = Inr [bm25_result (cs ! 1) (1 / 2), bm25_result (cs ! 2) (1 / 2)]"
    by (simp add: search_def idx sc top ne len)
  have "\<exists>ranked.
         search split_ws self ''cat'' 10 =
           Inr (map (\<lambda>p. bm25_result (self_chunks self ! fst p) (snd p)) ranked)
       \<and> (\<forall>p \<in> set ranked. 0 < snd p \<and> fst p < length (self_chunks self)
              \<and> snd p = [0, 1 / 2, 1 / 2] ! fst p)
       \<and> sorted_wrt (\<lambda>p q. snd q < snd p \<or> (snd p = snd q \<and> fst p < fst q)) ranked"
    using search_positive_ranked [where self = self and findall_words = split_ws
      and query = "''cat''" and top_k = 10] idx
    by (simp add: sc len)
  with ev show ?thesis
    unfolding Let_def cs_def [symmetric] self_def [symmetric] by blast
qed

section \<open>Properties of the chunker\<close>

lemma length_strip_le: "length (strip s) \<le> length s"
proof -
  have "length (strip s) \<le> length (dropWhile isspace s)"
    unfolding strip_def using length_dropWhile_le [of isspace "rev (dropWhile isspace s)"]
    by simp
  also have "\<dots> \<le> length s" by (rule length_dropWhile_le)
  finally show ?thesis .
qed

lemma find_sep_None: "find_sep sep s = None \<Longrightarrow> sep \<noteq> [] \<Longrightarrow> \<not> sublist sep s"
  by (induction s) (auto simp: sublist_Cons_right split: if_splits)

lemma find_sep_Some_sublist: "find_sep sep s = Some i \<Longrightarrow> sublist sep s"
  by (induction s arbitrary: i) (auto simp: sublist_Cons_right split: if_splits)

lemma find_sep_first:
  "find_sep sep s = Some i \<Longrightarrow> sep \<noteq> [] \<Longrightarrow> \<not> sublist sep (take i s)"
proof (induction s arbitrary: i)
  case Nil
  then show ?case by simp
next
  case (Cons c cs)
  show ?case
  proof (cases "prefix sep (c # cs)")
    case True
    with Cons.prems show ?thesis by simp
  next
    case False
    with Cons.prems obtain j where j: "find_sep sep cs = Some j" "i = Suc j" by auto
    from Cons.IH [OF j(1) Cons.prems(2)] have a: "\<not> sublist sep (take j cs)" .
    have b: "\<not> prefix sep (c # take j cs)"
    proof
      assume "prefix sep (c # take j cs)"
      moreover have "prefix (c # take j cs) (c # cs)" by (simp add: take_is_prefix)
      ultimately have "prefix sep (c # cs)" by (rule prefix_order.trans)
      with False show False by simp
    qed
    from a b j show ?thesis by (simp add: sublist_Cons_right)
  qed
qed

lemma sublist_trans: "sublist xs ys \<Longrightarrow> sublist ys zs \<Longrightarrow> sublist xs zs"
  by (rule sublist_order.order.trans)

lemma split_sep_parts_sublist: "p \<in> set (split_sep sep s) \<Longrightarrow> sublist p s"
proof (induction sep s rule: split_sep.induct)
  case (1 sep s)
  show ?case
  proof (cases "sep = []")
    case True
    with 1(2) show ?thesis by simp
  next
    case False
    show ?thesis
    proof (cases "find_sep sep s")
      case None
      with 1(2) False show ?thesis by (simp add: split_sep.simps)
    next
      case (Some i)
      with 1(2) False have "p = take i s \<or> p \<in> set (split_sep sep (drop (i + length sep) s))"
        by (subst (asm) split_sep.simps) simp
      then show ?thesis
      proof
        assume "p = take i s"
        then show ?thesis by (simp add: sublist_take)
      next
        assume "p \<in> set (split_sep sep (drop (i + length sep) s))"
        with 1(1) [OF False Some] have "sublist p (drop (i + length sep) s)" .
        then show ?thesis by (rule sublist_trans) simp
      qed
    qed
  qed
qed

lemma split_sep_parts_no_sep:
  "sep \<noteq> [] \<Longrightarrow> p \<in> set (split_sep sep s) \<Longrightarrow> \<not> sublist sep p"
proof (induction sep s rule: split_sep.induct)
  case (1 sep s)
  show ?case
  proof (cases "find_sep sep s")
    case None
    with 1(2,3) have "p = s" by (simp add: split_sep.simps)
    with None 1(2) show ?thesis by (simp add: find_sep_None)
  next
    case (Some i)
    with 1(2,3) have "p = take i s \<or> p \<in> set (split_sep sep (drop (i + length sep) s))"
      by (subst (asm) split_sep.simps) simp
    then show ?thesis
    proof
      assume "p = take i s"
      with Some 1(2) show ?thesis by (simp add: find_sep_first)
    next
      assume "p \<in> set (split_sep sep (drop (i + length sep) s))"
      with 1(1) [OF 1(2) Some 1(2)] show ?thesis .
    qed
  qed
qed

lemma split_sep_several_has_sep:
  assumes "1 < length (split_sep sep s)"
  shows "sep \<noteq> [] \<and> sublist sep s"
proof -
  have ne: "sep \<noteq> []" using assms by (cases "sep = []") simp_all
  show ?thesis
  proof (cases "find_sep sep s")
    case None
    with ne assms show ?thesis by (simp add: split_sep.simps)
  next
    case (Some i)
    with ne show ?thesis by (simp add: find_sep_Some_sublist)
  qed
qed

lemma length_filter_less:
  assumes "\<forall>x \<in> set xs. P x \<longrightarrow> Q x" and "x0 \<in> set xs" and "Q x0" and "\<not> P x0"
  shows "length (filter P xs) < length (filter Q xs)"
  using assms
proof (induction xs)
  case Nil
  then show ?case by simp
next
  case (Cons x xs)
  have le: "length (filter P xs) \<le> length (filter Q xs)"
    using Cons.prems(1)
  proof (induction xs)
    case Nil then show ?case by simp
  next
    case (Cons y ys) then show ?case by auto
  qed
  show ?case
  proof (cases "x = x0")
    case True
    with Cons.prems le show ?thesis by simp
  next
    case False
    with Cons.prems have "x0 \<in> set xs" by simp
    with Cons have "length (filter P xs) < length (filter Q xs)" by simp
    with Cons.prems(1) show ?thesis by auto
  qed
qed

lemma seps_in_part:
  assumes "1 < length (split_sep sep s)" and "sep \<in> set separators"
    and "p \<in> set (split_sep sep s)"
  shows "seps_in p < seps_in s"
  unfolding seps_in_def
proof (rule length_filter_less [of _ _ _ sep])
  from assms(3) have ps: "sublist p s" by (rule split_sep_parts_sublist)
  show "\<forall>x \<in> set separators. sublist x p \<longrightarrow> sublist x s"
    using ps by (blast intro: sublist_trans)
  show "sep \<in> set separators" by fact
  from split_sep_several_has_sep [OF assms(1)] show "sublist sep s" by simp
  from split_sep_several_has_sep [OF assms(1)] assms(3) show "\<not> sublist sep p"
    by (simp add: split_sep_parts_no_sep)
qed

lemma seps_in_le_5: "seps_in t \<le> 5"
proof -
  have "seps_in t \<le> length separators"
    unfolding seps_in_def by (rule length_filter_le)
  then show ?thesis by (simp add: separators_def)
qed

lemma separators_length_le_2: "sep \<in> set separators \<Longrightarrow> length sep \<le> 2"
  by (auto simp: separators_def)

lemma slack_nonneg: "0 \<le> slack cfg"
  by (simp add: slack_def)

lemma all_within_mono: "all_within cfg n chunks \<Longrightarrow> n \<le> m \<Longrightarrow> all_within cfg m chunks"
proof -
  assume a: "all_within cfg n chunks" and nm: "n \<le> m"
  have "int n * slack cfg \<le> int m * slack cfg"
    using nm slack_nonneg [of cfg] by (intro mult_right_mono) simp_all
  with a show ?thesis
    unfolding all_within_def list_all_iff by force
qed

lemma all_within_append [simp]:
  "all_within cfg n (xs @ ys) \<longleftrightarrow> all_within cfg n xs \<and> all_within cfg n ys"
  by (simp add: all_within_def)

lemma all_within_Nil [simp]: "all_within cfg n []"
  by (simp add: all_within_def)

lemma all_within_single:
  "int (length t) \<le> chunk_size cfg \<Longrightarrow> all_within cfg n [(t, s)]"
proof -
  assume "int (length t) \<le> chunk_size cfg"
  moreover have "0 \<le> int n * slack cfg" using slack_nonneg [of cfg] by simp
  ultimately show ?thesis by (simp add: all_within_def)
qed

lemma hard_loop_length: "c \<in> set (hard_loop n section text) \<Longrightarrow> length (fst c) \<le> n"
proof (induction n "section" "text" rule: hard_loop.induct)
  case (1 n sc tx)
  show ?case
  proof (cases "n = 0 \<or> tx = []")
    case True
    with 1(2) show ?thesis by (simp add: hard_loop.simps)
  next
    case False
    with 1(2) have "c = (strip (take n tx), sc) \<or> c \<in> set (hard_loop n sc (drop n tx))"
      by (subst (asm) hard_loop.simps) (auto simp: Let_def split: if_splits)
    then show ?thesis
    proof
      assume "c = (strip (take n tx), sc)"
      then show ?thesis using length_strip_le [of "take n tx"] by simp
    next
      assume "c \<in> set (hard_loop n sc (drop n tx))"
      with 1(1) [OF False refl] show ?thesis by simp
    qed
  qed
qed

lemma hard_split_within:
  assumes "0 < chunk_size cfg"
  shows "\<exists>chunks. hard_split cfg text section = Inr chunks \<and> all_within cfg 0 chunks"
proof -
  have "all_within cfg 0 (hard_loop (nat (chunk_size cfg)) section text)"
    unfolding all_within_def list_all_iff
    using hard_loop_length [of _ "nat (chunk_size cfg)" "section" "text"] assms by fastforce
  with assms show ?thesis by (simp add: hard_split_def)
qed

lemma flush_within:
  assumes "all_within cfg n chunks" "int (length current_chunk) \<le> chunk_size cfg"
  shows "all_within cfg n (flush cfg section chunks current_chunk)"
proof -
  have "int (length (strip current_chunk)) \<le> chunk_size cfg"
    using assms(2) length_strip_le [of current_chunk] by linarith
  then have "all_within cfg n [(strip current_chunk, section)]" by (rule all_within_single)
  with assms(1) show ?thesis by (simp add: flush_def)
qed

lemma merge_finish_within:
  assumes "all_within cfg n chunks" "int (length current_chunk) \<le> chunk_size cfg"
    and "length separator \<le> 2"
  shows "all_within cfg (Suc n) (merge_finish cfg separator section chunks current_chunk)"
proof -
  have up: "all_within cfg (Suc n) chunks"
    using assms(1) by (rule all_within_mono) simp
  have st: "int (length (strip current_chunk)) \<le> chunk_size cfg"
    using assms(2) length_strip_le [of current_chunk] by linarith
  show ?thesis
  proof (cases "current_chunk \<noteq> [] \<and> int (length (strip current_chunk)) \<ge> min_chunk_size cfg")
    case True
    with up all_within_single [OF st] show ?thesis by (simp add: merge_finish_def)
  next
    case False
    show ?thesis
    proof (cases "current_chunk \<noteq> [] \<and> chunks \<noteq> []")
      case True
      with False have small: "int (length (strip current_chunk)) < min_chunk_size cfg" by simp
      obtain prev_text prev_section where l: "last chunks = (prev_text, prev_section)"
        by (cases "last chunks")
      from True have "last chunks \<in> set chunks" by simp
      with assms(1) l have pl: "int (length prev_text) \<le> chunk_size cfg + int n * slack cfg"
        unfolding all_within_def list_all_iff by force
      have "min_chunk_size cfg + 1 \<le> slack cfg" by (simp add: slack_def)
      with pl small assms(3)
      have "int (length (prev_text @ separator @ strip current_chunk))
          \<le> chunk_size cfg + int (Suc n) * slack cfg"
        by (simp add: algebra_simps)
      then have new: "all_within cfg (Suc n)
          [(prev_text @ separator @ strip current_chunk, prev_section)]"
        by (simp add: all_within_def)
      have "set (butlast chunks) \<subseteq> set chunks" by (auto dest: in_set_butlastD)
      with up have "all_within cfg (Suc n) (butlast chunks)"
        unfolding all_within_def list_all_iff by blast
      with new True False l show ?thesis by (simp add: merge_finish_def)
    next
      case f2: False
      with False up show ?thesis by (auto simp: merge_finish_def)
    qed
  qed
qed

lemma split_within:
  fixes cfg :: ChunkConfig
  assumes pos: "0 < chunk_size cfg"
  shows "(\<exists>chunks. recursive_split cfg text section = Inr chunks
            \<and> all_within cfg (seps_in text) chunks)"
    and "set seps \<subseteq> set separators \<Longrightarrow>
         (\<exists>chunks. try_separators cfg text section seps = Inr chunks
            \<and> all_within cfg (seps_in text) chunks)"
    and "(\<forall>p \<in> set parts. seps_in p \<le> n) \<Longrightarrow> length separator \<le> 2 \<Longrightarrow>
         (\<exists>chunks. merge_splits cfg parts separator section = Inr chunks
            \<and> all_within cfg (Suc n) chunks)"
    and "(\<forall>p \<in> set parts. seps_in p \<le> n) \<Longrightarrow> all_within cfg n chunks0 \<Longrightarrow>
         int (length current_chunk) \<le> chunk_size cfg \<Longrightarrow>
         (\<exists>chunks' current'. merge_loop cfg separator section parts chunks0 current_chunk
              = Inr (chunks', current')
            \<and> all_within cfg n chunks' \<and> int (length current') \<le> chunk_size cfg)"
  using pos
proof (induction cfg "text" "section" and cfg "text" "section" seps
    and cfg parts separator "section" and cfg separator "section" parts chunks0 current_chunk
    arbitrary: and and n and n
    rule: recursive_split_try_separators_merge_splits_merge_loop.induct)
  case (1 cfg tx sc)
  show ?case
  proof (cases "int (length tx) \<le> chunk_size cfg")
    case True
    then show ?thesis
      by (simp add: recursive_split.simps all_within_single)
  next
    case False
    from 1(1) [OF False _ 1(2)] False show ?thesis
      by (simp add: recursive_split.simps)
  qed
next
  case (2 cfg tx sc)
  from hard_split_within [OF 2(2)] obtain chunks where
    "hard_split cfg tx sc = Inr chunks" "all_within cfg 0 chunks" by blast
  then show ?case using all_within_mono [of cfg 0 chunks "seps_in tx"] by simp
next
  case (3 cfg tx sc separator rest)
  let ?parts = "split_sep separator tx"
  from 3(4) have sep: "separator \<in> set separators" and rest: "set rest \<subseteq> set separators"
    by simp_all
  show ?case
  proof (cases "1 < length ?parts")
    case True
    have "\<forall>p \<in> set ?parts. seps_in p \<le> seps_in tx - 1"
      using seps_in_part [OF True sep] by fastforce
    moreover have "0 < seps_in tx"
      using seps_in_part [OF True sep, of "hd ?parts"] True
      by (cases ?parts) auto
    ultimately obtain chunks where
      m: "merge_splits cfg ?parts separator sc = Inr chunks"
      and w: "all_within cfg (seps_in tx) chunks"
      using 3(1) [OF refl True _ separators_length_le_2 [OF sep] 3(5), of "seps_in tx - 1"]
      by auto
    show ?thesis
    proof (cases "chunks = []")
      case True
      with 3(2) [OF refl \<open>1 < length ?parts\<close> m _ rest 3(5)] m \<open>1 < length ?parts\<close>
      show ?thesis by simp
    next
      case False
      with m w \<open>1 < length ?parts\<close> show ?thesis by simp
    qed
  next
    case False
    with 3(3) [OF refl False rest 3(5)] show ?thesis by simp
  qed
next
  case (4 cfg parts separator sc)
  from 4(1) [OF 4(2) _ _ 4(4)] 4(4)
  obtain chunks' current' where
    l: "merge_loop cfg separator sc parts [] [] = Inr (chunks', current')"
    and w: "all_within cfg n chunks'" and c: "int (length current') \<le> chunk_size cfg"
    by auto
  from merge_finish_within [OF w c 4(3)] l show ?case by simp
next
  case (5 cfg separator sc chunks current_chunk)
  then show ?case by simp
next
  case (6 cfg separator sc part parts chunks current_chunk)
  let ?test = "if current_chunk \<noteq> [] then current_chunk @ separator @ part else part"
  let ?flushed = "flush cfg sc chunks current_chunk"
  from 6(5) have parts: "\<forall>p \<in> set parts. seps_in p \<le> n" and part: "seps_in part \<le> n"
    by simp_all
  show ?case
  proof (cases "int (length ?test) \<le> chunk_size cfg")
    case True
    from 6(1) [OF refl True parts 6(6) True 6(8)] True show ?thesis by simp
  next
    case False
    have fl: "all_within cfg n ?flushed" using 6(6,7) by (rule flush_within)
    show ?thesis
    proof (cases "int (length part) > chunk_size cfg")
      case True
      from 6(2) [OF refl False refl True 6(8)] obtain sub_chunks where
        r: "recursive_split cfg part sc = Inr sub_chunks"
        and sw: "all_within cfg (seps_in part) sub_chunks" by blast
      from sw part have "all_within cfg n sub_chunks" by (rule all_within_mono)
      with fl have "all_within cfg n (?flushed @ sub_chunks)" by simp
      from 6(3) [OF refl False refl True r parts this _ 6(8)] False True r 6(8)
      show ?thesis by simp
    next
      case f: False
      then have "int (length part) \<le> chunk_size cfg" by simp
      from 6(4) [OF refl False refl f parts fl this 6(8)] False f show ?thesis by simp
    qed
  qed
qed

lemma recursive_split_within_5:
  assumes "0 < chunk_size cfg"
  shows "\<exists>chunks. recursive_split cfg text section = Inr chunks \<and> all_within cfg 5 chunks"
proof -
  from split_within(1) [OF assms] obtain chunks where
    "recursive_split cfg text section = Inr chunks" "all_within cfg (seps_in text) chunks"
    by blast
  with all_within_mono [OF _ seps_in_le_5] show ?thesis by blast
qed

lemma split_sections_within_5:
  assumes "0 < chunk_size cfg"
  shows "\<exists>chunks. split_sections cfg text sections = Inr chunks \<and> all_within cfg 5 chunks"
proof (induction sections)
  case Nil
  then show ?case by simp
next
  case (Cons s rest)
  obtain section_name start_pos end_pos where s: "s = (section_name, start_pos, end_pos)"
    by (cases s)
  let ?t = "strip (take (end_pos - start_pos) (drop start_pos text))"
  from recursive_split_within_5 [OF assms] obtain first where
    f: "recursive_split cfg ?t section_name = Inr first" "all_within cfg 5 first" by blast
  from Cons obtain later where
    l: "split_sections cfg text rest = Inr later" "all_within cfg 5 later" by blast
  show ?case
  proof (cases "?t = []")
    case True
    with l s show ?thesis by simp
  next
    case False
    with f l s show ?thesis by simp
  qed
qed

lemma raw_split_within_5:
  assumes "0 < chunk_size cfg"
  shows "\<exists>raw. raw_split pattern_match cfg text = Inr raw \<and> all_within cfg 5 raw"
proof -
  let ?sections = "if section_detection cfg then detect_sections pattern_match text else []"
  show ?thesis
  proof (cases "?sections = []")
    case True
    with recursive_split_within_5 [OF assms, of "text" "''body''"] show ?thesis
      by (simp add: raw_split_def)
  next
    case False
    let ?pre = "strip (take (fst (snd (hd ?sections))) text)"
    from recursive_split_within_5 [OF assms] obtain pre where
      p: "recursive_split cfg ?pre ''preamble'' = Inr pre" "all_within cfg 5 pre" by blast
    from split_sections_within_5 [OF assms] obtain cs where
      c: "split_sections cfg text ?sections = Inr cs" "all_within cfg 5 cs" by blast
    have "\<exists>raw. recursive_split_with_sections cfg text ?sections = Inr raw \<and> all_within cfg 5 raw"
    proof (cases "fst (snd (hd ?sections)) > 0 \<and> ?pre \<noteq> []")
      case True
      with False p c show ?thesis
        by (simp add: recursive_split_with_sections_def)
    next
      case f: False
      with False c show ?thesis
        by (auto simp: recursive_split_with_sections_def Let_def)
    qed
    with False show ?thesis by (simp add: raw_split_def Let_def)
  qed
qed

lemma hard_split_at_most_chunk_size:
  assumes "0 < chunk_size cfg"
  shows "\<exists>chunks. hard_split cfg text section = Inr chunks
      \<and> (\<forall>c \<in> set chunks. int (length (fst c)) \<le> chunk_size cfg)"
  using hard_split_within [OF assms, of "text" "section"]
  by (auto simp: all_within_def list_all_iff)

text \<open>
  C1, amended: for a positive chunk size the raw splitting stage returns, and every chunk it
  emits is at most \<open>chunk_size + 5 * (min_chunk_size + 1)\<close> characters long (at most
  \<open>chunk_size\<close> when \<open>min_chunk_size\<close> is negative): a chunk exceeds \<open>chunk_size\<close> only by
  the below-minimum remainders that merge passes append to it. Every chunk of the hard-split
  fallback is a stripped window of \<open>chunk_size\<close> characters, so at most \<open>chunk_size\<close> long.
\<close>

theorem raw_chunks_bounded:
  assumes "0 < chunk_size cfg"
  shows "(\<exists>raw. raw_split pattern_match cfg text = Inr raw
           \<and> (\<forall>c \<in> set raw.
                 int (length (fst c)) \<le> chunk_size cfg + 5 * max 0 (min_chunk_size cfg + 1)))
       \<and> (\<exists>pieces. hard_split cfg text section = Inr pieces
           \<and> (\<forall>c \<in> set pieces. int (length (fst c)) \<le> chunk_size cfg))"
proof -
  from raw_split_within_5 [OF assms] obtain raw where
    "raw_split pattern_match cfg text = Inr raw" "all_within cfg 5 raw" by blast
  then have "\<exists>raw. raw_split pattern_match cfg text = Inr raw
           \<and> (\<forall>c \<in> set raw.
                 int (length (fst c)) \<le> chunk_size cfg + 5 * max 0 (min_chunk_size cfg + 1))"
    by (auto simp: all_within_def list_all_iff slack_def)
  with hard_split_at_most_chunk_size [OF assms] show ?thesis by blast
qed

theorem raw_chunks_bounded_witness:
  "raw_split (\<lambda>name line. False)
      \<lparr>chunk_size = 10, overlap_percent = 20, min_chunk_size = 3, section_detection = True\<rparr>
      ''aaaaaaaaaa b'' = Inr [(''aaaaaaaaaa b'', ''body'')]
   \<and> (\<exists>raw. raw_split (\<lambda>name line. False)
      \<lparr>chunk_size = 10, overlap_percent = 20, min_chunk_size = 3, section_detection = True\<rparr>
      ''aaaaaaaaaa b'' = Inr raw
        \<and> (\<forall>c \<in> set raw. int (length (fst c)) \<le> 10 + 5 * max 0 (3 + 1)))"
proof -
  have "raw_split (\<lambda>name line. False)
      \<lparr>chunk_size = 10, overlap_percent = 20, min_chunk_size = 3, section_detection = True\<rparr>
      ''aaaaaaaaaa b'' = Inr [(''aaaaaaaaaa b'', ''body'')]"
    by code_simp
  moreover have "\<exists>raw. raw_split (\<lambda>name line. False)
      \<lparr>chunk_size = 10, overlap_percent = 20, min_chunk_size = 3, section_detection = True\<rparr>
      ''aaaaaaaaaa b'' = Inr raw
        \<and> (\<forall>c \<in> set raw. int (length (fst c)) \<le> 10 + 5 * max 0 (3 + 1))"
    using raw_chunks_bounded [of
        "\<lparr>chunk_size = 10, overlap_percent = 20, min_chunk_size = 3, section_detection = True\<rparr>"
        "\<lambda>name line. False" "''aaaaaaaaaa b''"]
    by simp
  ultimately show ?thesis by blast
qed

text \<open>
  C1 as stated fails twice over. With \<open>chunk_size = 10\<close> and \<open>min_chunk_size = 3\<close>, the text
  of ten letters, a space and one letter comes back as a single merged chunk of twelve
  characters; and the hard split of nine letters, a tab and five letters emits a first chunk
  of nine characters, since every window is stripped.
\<close>

theorem raw_chunk_exceeds_size_counterexample:
  "recursive_split
      \<lparr>chunk_size = 10, overlap_percent = 20, min_chunk_size = 3, section_detection = False\<rparr>
      ''aaaaaaaaaa b'' ''body'' = Inr [(''aaaaaaaaaa b'', ''body'')]
   \<and> (10 :: int) \<ge> 3
   \<and> \<not> (int (length ''aaaaaaaaaa b'') \<le> 10)
   \<and> recursive_split
      \<lparr>chunk_size = 10, overlap_percent = 20, min_chunk_size = 3, section_detection = False\<rparr>
      (''aaaaaaaaa'' @ [CHR 0x09] @ ''bbbbb'') ''body''
        = Inr [(''aaaaaaaaa'', ''body''), (''bbbbb'', ''body'')]
   \<and> hard_split
      \<lparr>chunk_size = 10, overlap_percent = 20, min_chunk_size = 3, section_detection = False\<rparr>
      (''aaaaaaaaa'' @ [CHR 0x09] @ ''bbbbb'') ''body''
        = Inr [(''aaaaaaaaa'', ''body''), (''bbbbb'', ''body'')]
   \<and> length ''aaaaaaaaa'' \<noteq> 10"
  by code_simp

text \<open>
  C6 fails on the code: when the next part overflows an accumulated chunk that is below the
  minimum size, the loop of \<open>_merge_splits\<close> neither emits it nor appends it to the previous
  chunk. With \<open>chunk_size = 10\<close> and \<open>min_chunk_size = 5\<close> the word \<open>ab\<close> is lost.
\<close>

theorem merge_drops_small_chunk:
  "recursive_split
      \<lparr>chunk_size = 10, overlap_percent = 20, min_chunk_size = 5, section_detection = False\<rparr>
      ''ab cdefghijk'' ''body'' = Inr [(''cdefghijk'', ''body'')]
   \<and> map_sum id (map c_text) (chunk (\<lambda>name line. False) (\<lambda>i. ''0f0f0f0f'')
      \<lparr>chunk_size = 10, overlap_percent = 20, min_chunk_size = 5, section_detection = False\<rparr>
      ''ab cdefghijk'' ''doc'') = Inr [''cdefghijk'']"
  by code_simp

text \<open>The same loss under the default configuration: the word before 999 letters is dropped.\<close>

lemma default_config_drops_small_chunk:
  "recursive_split default_ChunkConfig (''ab '' @ replicate 999 CHR ''x'') ''body''
   = Inr [(replicate 999 CHR ''x'', ''body'')]"
  by code_simp

lemma length_slice_from_le: "length (slice_from k xs) \<le> length xs"
  by (simp add: slice_from_def)

lemma length_overlap_content_le: "length (overlap_content oc t) \<le> length t"
  by (simp add: overlap_content_def length_slice_from_le)

lemma length_apply_overlap [simp]: "length (apply_overlap cfg raw) = length raw"
  by (simp add: apply_overlap_def)

lemma length_create_chunks [simp]: "length (create_chunks uuid chunks_data src) = length chunks_data"
  by (simp add: create_chunks_def)

text \<open>The four components of one entry of \<open>_apply_overlap\<close>'s result.\<close>

lemma apply_overlap_nth:
  assumes "i < length raw"
  shows "apply_overlap cfg raw ! i =
     (let content = overlap_content (overlap_chars cfg) (fst (raw ! (i - 1)));
          prepend = (0 < i \<and> \<not> prefix content (fst (raw ! i)))
      in (if prepend then content @ '' '' @ fst (raw ! i) else fst (raw ! i),
          snd (raw ! i),
          if prepend then length content else 0,
          if i < length raw - 1 then length (overlap_content (overlap_chars cfg) (fst (raw ! i)))
          else 0))"
  using assms
  by (cases "raw ! i") (auto simp: apply_overlap_def Let_def)

lemma create_chunks_nth:
  assumes "i < length chunks_data"
  shows "c_text (create_chunks uuid chunks_data src ! i) = fst (chunks_data ! i)"
    and "section_label (c_metadata (create_chunks uuid chunks_data src ! i))
           = fst (snd (chunks_data ! i))"
    and "overlap_with_prev (c_metadata (create_chunks uuid chunks_data src ! i))
           = fst (snd (snd (chunks_data ! i)))"
    and "overlap_with_next (c_metadata (create_chunks uuid chunks_data src ! i))
           = snd (snd (snd (chunks_data ! i)))"
    and "chunk_index (c_metadata (create_chunks uuid chunks_data src ! i)) = i"
    and "source (c_metadata (create_chunks uuid chunks_data src ! i)) = src"
  using assms
  by (simp_all add: create_chunks_def split: prod.splits)

lemma apply_overlap_adjacent:
  assumes "Suc i < length raw"
  shows "fst (snd (snd (apply_overlap cfg raw ! Suc i))) \<le> length (fst (raw ! i))"
    and "length (fst (raw ! i)) \<le> length (fst (apply_overlap cfg raw ! i))"
    and "snd (snd (snd (apply_overlap cfg raw ! i))) \<le> length (fst (apply_overlap cfg raw ! Suc i))"
proof -
  let ?content = "overlap_content (overlap_chars cfg) (fst (raw ! i))"
  from assms have i: "i < length raw" and lt: "i < length raw - 1" by simp_all
  show "fst (snd (snd (apply_overlap cfg raw ! Suc i))) \<le> length (fst (raw ! i))"
    using length_overlap_content_le [of "overlap_chars cfg" "fst (raw ! i)"]
    by (simp add: apply_overlap_nth [OF assms] Let_def)
  show "length (fst (raw ! i)) \<le> length (fst (apply_overlap cfg raw ! i))"
    by (simp add: apply_overlap_nth [OF i] Let_def)
  have nxt: "snd (snd (snd (apply_overlap cfg raw ! i))) = length ?content"
    using lt by (simp add: apply_overlap_nth [OF i] Let_def)
  have "length ?content \<le> length (fst (apply_overlap cfg raw ! Suc i))"
  proof (cases "prefix ?content (fst (raw ! Suc i))")
    case True
    then have "length ?content \<le> length (fst (raw ! Suc i))" by (rule prefix_length_le)
    with True show ?thesis by (simp add: apply_overlap_nth [OF assms] Let_def)
  next
    case False
    then show ?thesis by (simp add: apply_overlap_nth [OF assms] Let_def)
  qed
  with nxt show "snd (snd (snd (apply_overlap cfg raw ! i)))
      \<le> length (fst (apply_overlap cfg raw ! Suc i))" by simp
qed

text \<open>
  C5, amended: in every chunking run that returns, a chunk's \<open>overlap_with_prev\<close> is at most
  the previous chunk's text length and its \<open>overlap_with_next\<close> is at most the next chunk's
  text length (not half of them).
\<close>

theorem chunk_overlap_bounded:
  assumes "chunk pattern_match uuid cfg text src = Inr cs" and "Suc i < length cs"
  shows "overlap_with_prev (c_metadata (cs ! Suc i)) \<le> length (c_text (cs ! i))
       \<and> overlap_with_next (c_metadata (cs ! i)) \<le> length (c_text (cs ! Suc i))"
proof -
  from assms obtain raw where
    cs: "cs = create_chunks uuid (apply_overlap cfg raw) src"
    by (auto simp: chunk_def split: if_splits sum.splits)
  from assms(2) cs have len: "Suc i < length raw" by simp
  then have i: "i < length (apply_overlap cfg raw)" and si: "Suc i < length (apply_overlap cfg raw)"
    by simp_all
  from apply_overlap_adjacent [OF len, of cfg]
  show ?thesis
    unfolding cs
    by (simp add: create_chunks_nth [OF i] create_chunks_nth [OF si])
qed

theorem chunk_overlap_bounded_witness:
  "(\<exists>cs. chunk (\<lambda>name line. False) (\<lambda>i. ''0f0f0f0f'')
      \<lparr>chunk_size = 10, overlap_percent = 20, min_chunk_size = 3, section_detection = False\<rparr>
      ''abc defghijk'' ''doc'' = Inr cs
    \<and> length cs = 2
    \<and> overlap_with_prev (c_metadata (cs ! Suc 0)) \<le> length (c_text (cs ! 0))
    \<and> overlap_with_next (c_metadata (cs ! 0)) \<le> length (c_text (cs ! Suc 0)))"
proof -
  let ?cfg = "\<lparr>chunk_size = 10, overlap_percent = 20, min_chunk_size = 3, section_detection = False\<rparr>"
  obtain cs where cs: "chunk (\<lambda>name line. False) (\<lambda>i. ''0f0f0f0f'') ?cfg ''abc defghijk'' ''doc'' = Inr cs"
    and len: "length cs = 2"
  proof -
    have "map_sum id length
        (chunk (\<lambda>name line. False) (\<lambda>i. ''0f0f0f0f'') ?cfg ''abc defghijk'' ''doc'') = Inr 2"
      by code_simp
    then show ?thesis
      using that
      by (cases "chunk (\<lambda>name line. False) (\<lambda>i. ''0f0f0f0f'') ?cfg ''abc defghijk'' ''doc''")
        simp_all
  qed
  from len have "Suc 0 < length cs" by simp
  from chunk_overlap_bounded [OF cs this] cs len show ?thesis by blast
qed

text \<open>
  C5 as stated fails: with \<open>chunk_size = 10\<close>, 20 percent overlap and \<open>min_chunk_size = 3\<close>
  the second chunk records two overlapping characters, more than half of the three
  characters of the first chunk.
\<close>

theorem overlap_exceeds_half_counterexample:
  "map_sum id (map (\<lambda>c. (c_text c, overlap_with_prev (c_metadata c), overlap_with_next (c_metadata c))))
     (chunk (\<lambda>name line. False) (\<lambda>i. ''0f0f0f0f'')
        \<lparr>chunk_size = 10, overlap_percent = 20, min_chunk_size = 3, section_detection = False\<rparr>
        ''abc defghijk'' ''doc'')
     = Inr [(''abc'', 0, 2), (''bc defghijk'', 2, 0)]
   \<and> \<not> (2 * (2 :: nat) \<le> length ''abc'')"
  by code_simp

section \<open>Properties of the enricher\<close>

text \<open>
  C7 fails on the code: with a page map, \<open>_extract_page_number\<close> walks the boundaries in
  ascending offset order and returns at the first one the chunk start has reached, which is
  the lowest boundary, not the highest. With boundaries at offsets 0 (page 1) and 1000 (page 2)
  a chunk starting at offset 1500 gets page 1 where the claim's wording gives page 2.
\<close>

theorem page_of_lowest_boundary:
  "extract_page_number page_marker
      \<lparr>c_id = ''c1'', c_text = ''some text'',
       c_metadata = \<lparr>source = ''doc'', page = 0, section_label = ''methods'', chunk_index = 0,
         parent_chunk_id = None, overlap_with_prev = 0, overlap_with_next = 0,
         semantic_tags = []\<rparr>\<rparr>
      \<lparr>page_map = Some [(0, 1), (1000, 2)], chunk_offsets = Some [(''c1'', 1500)],
       other_keys = False\<rparr> = 1
   \<and> page_of_highest_boundary 1500 [(0, 1), (1000, 2)] = 2
   \<and> map (\<lambda>c. page (c_metadata c))
       (enrich \<lparr>e_config = default_EnricherConfig, e_pattern_match = pattern_match,
                e_page_marker = page_marker, e_md5 = md5\<rparr>
          [\<lparr>c_id = ''c1'', c_text = ''some text'',
            c_metadata = \<lparr>source = ''doc'', page = 0, section_label = ''methods'',
              chunk_index = 0, parent_chunk_id = None, overlap_with_prev = 0,
              overlap_with_next = 0, semantic_tags = []\<rparr>\<rparr>]
          (Some \<lparr>page_map = Some [(0, 1), (1000, 2)], chunk_offsets = Some [(''c1'', 1500)],
                 other_keys = False\<rparr>)) = [1]"
  by (simp add: extract_page_number_def page_of_highest_boundary_def enrich_def enrich_chunk_def
      default_EnricherConfig_def truthy_def assign_parent_relationships_def Let_def)

lemma parent_loop_length [simp]: "length (parent_loop m cs) = length cs"
  by (induction cs arbitrary: m) (auto simp: Let_def split: option.splits)

lemma parent_loop_nth:
  "i < length cs \<Longrightarrow>
   c_id (parent_loop m cs ! i) = c_id (cs ! i)
   \<and> c_text (parent_loop m cs ! i) = c_text (cs ! i)
   \<and> section_label (c_metadata (parent_loop m cs ! i)) = section_label (c_metadata (cs ! i))"
proof (induction cs arbitrary: m i)
  case Nil
  then show ?case by simp
next
  case (Cons c cs)
  show ?case
  proof (cases i)
    case 0
    then show ?thesis by (simp add: Let_def split: option.splits)
  next
    case (Suc j)
    with Cons.prems have "j < length cs" by simp
    with Cons.IH Suc show ?thesis by (simp add: Let_def split: option.splits)
  qed
qed

lemma enrich_chunk_text [simp]: "c_text (enrich_chunk self c i m) = c_text c"
  by (simp add: enrich_chunk_def Let_def)

lemma enrich_chunk_id:
  "hierarchical_ids (e_config self) \<Longrightarrow>
   c_id (enrich_chunk self c i m) =
     generate_hierarchical_id (e_md5 self) (source (c_metadata c))
       (section_label (c_metadata (enrich_chunk self c i m))) i (c_text c)"
  by (simp add: enrich_chunk_def Let_def)

lemma enrich_chunk_section_cong:
  assumes "c_text c = c_text c'" and "c_metadata c = c_metadata c'"
  shows "section_label (c_metadata (enrich_chunk self c i m))
       = section_label (c_metadata (enrich_chunk self c' i m'))"
proof -
  have f: "section_label (c_metadata (enrich_chunk self x i pm)) =
      (if section_label (c_metadata x) = [] \<or> section_label (c_metadata x) = ''body'' then
         (case detect_section (e_pattern_match self) (c_text x) of
            Some s \<Rightarrow> if s \<noteq> [] then s else section_label (c_metadata x)
          | None \<Rightarrow> section_label (c_metadata x))
       else section_label (c_metadata x))" for x pm
    by (simp add: enrich_chunk_def Let_def split: option.splits)
  show ?thesis by (simp only: f assms)
qed

lemma enrich_length [simp]: "length (enrich self cs m) = length cs"
  by (simp add: enrich_def assign_parent_relationships_def Let_def)

lemma enrich_nth:
  assumes "i < length cs"
  shows "c_id (enrich self cs m ! i) = c_id (enrich_chunk self (cs ! i) i m)"
    and "c_text (enrich self cs m ! i) = c_text (cs ! i)"
    and "section_label (c_metadata (enrich self cs m ! i))
           = section_label (c_metadata (enrich_chunk self (cs ! i) i m))"
proof -
  let ?enriched = "map (\<lambda>i. enrich_chunk self (cs ! i) i m) [0 ..< length cs]"
  from assms have ne: "cs \<noteq> []" by auto
  from assms have i: "i < length ?enriched" by simp
  have e: "?enriched ! i = enrich_chunk self (cs ! i) i m" using assms by simp
  show "c_id (enrich self cs m ! i) = c_id (enrich_chunk self (cs ! i) i m)"
    using parent_loop_nth [OF i, of Map.empty] ne e
    by (simp add: enrich_def assign_parent_relationships_def Let_def del: parent_loop.simps)
  show "c_text (enrich self cs m ! i) = c_text (cs ! i)"
    using parent_loop_nth [OF i, of Map.empty] ne e
    by (simp add: enrich_def assign_parent_relationships_def Let_def del: parent_loop.simps)
  show "section_label (c_metadata (enrich self cs m ! i))
           = section_label (c_metadata (enrich_chunk self (cs ! i) i m))"
    using parent_loop_nth [OF i, of Map.empty] ne e
    by (simp add: enrich_def assign_parent_relationships_def Let_def del: parent_loop.simps)
qed

lemma create_chunks_same_but_id:
  assumes "i < length chunks_data"
  shows "c_text (create_chunks uuid1 chunks_data src ! i) = c_text (create_chunks uuid2 chunks_data src ! i)"
    and "c_metadata (create_chunks uuid1 chunks_data src ! i)
         = c_metadata (create_chunks uuid2 chunks_data src ! i)"
    and "source (c_metadata (create_chunks uuid1 chunks_data src ! i)) = src"
  using assms by (simp_all add: create_chunks_def split: prod.splits)

text \<open>
  C8: with hierarchical IDs enabled, two chunking runs on the same text, source and
  configuration, whatever random tokens the chunker draws for its own IDs (and whatever
  document metadata the enricher is given), are enriched to the same list of chunk IDs; each
  ID is \<open>_generate_hierarchical_id\<close> of the source, the corrected section label, the chunk
  index and the chunk text.
\<close>

theorem hierarchical_ids_deterministic:
  assumes hier: "hierarchical_ids (e_config self)"
    and run1: "chunk pattern_match uuid1 cfg text src = Inr cs1"
    and run2: "chunk pattern_match uuid2 cfg text src = Inr cs2"
  shows "map c_id (enrich self cs1 pdf_metadata1) = map c_id (enrich self cs2 pdf_metadata2)
       \<and> (\<forall>i < length cs1.
             c_id (enrich self cs1 pdf_metadata1 ! i) =
               generate_hierarchical_id (e_md5 self) src
                 (section_label (c_metadata (enrich self cs1 pdf_metadata1 ! i))) i
                 (c_text (enrich self cs1 pdf_metadata1 ! i)))"
proof -
  obtain chunks_data where
    cs1: "cs1 = create_chunks uuid1 chunks_data src" and cs2: "cs2 = create_chunks uuid2 chunks_data src"
  proof (cases "text = [] \<or> strip text = []")
    case True
    with run1 run2 have "cs1 = create_chunks uuid1 [] src" "cs2 = create_chunks uuid2 [] src"
      by (auto simp: chunk_def create_chunks_def)
    then show ?thesis by (rule that)
  next
    case False
    with run1 obtain raw where raw: "raw_split pattern_match cfg text = Inr raw"
      and 1: "cs1 = create_chunks uuid1 (apply_overlap cfg raw) src"
      by (auto simp: chunk_def split: sum.splits)
    with False run2 have "cs2 = create_chunks uuid2 (apply_overlap cfg raw) src"
      by (auto simp: chunk_def)
    with 1 show ?thesis by (rule that)
  qed
  have len: "length cs1 = length chunks_data" "length cs2 = length chunks_data"
    by (simp_all add: cs1 cs2 create_chunks_def)
  have ids: "c_id (enrich self cs1 pdf_metadata1 ! i) = c_id (enrich self cs2 pdf_metadata2 ! i)"
    and formula: "c_id (enrich self cs1 pdf_metadata1 ! i) =
               generate_hierarchical_id (e_md5 self) src
                 (section_label (c_metadata (enrich self cs1 pdf_metadata1 ! i))) i
                 (c_text (enrich self cs1 pdf_metadata1 ! i))"
    if i: "i < length chunks_data" for i
  proof -
    from i len have i1: "i < length cs1" and i2: "i < length cs2" by simp_all
    have t: "c_text (cs1 ! i) = c_text (cs2 ! i)" and m: "c_metadata (cs1 ! i) = c_metadata (cs2 ! i)"
      and s1: "source (c_metadata (cs1 ! i)) = src"
      unfolding cs1 cs2 using create_chunks_same_but_id [OF i] by simp_all
    have sec: "section_label (c_metadata (enrich_chunk self (cs1 ! i) i pdf_metadata1))
        = section_label (c_metadata (enrich_chunk self (cs2 ! i) i pdf_metadata2))"
      using t m by (rule enrich_chunk_section_cong)
    show "c_id (enrich self cs1 pdf_metadata1 ! i) = c_id (enrich self cs2 pdf_metadata2 ! i)"
      by (simp add: enrich_nth(1) [OF i1] enrich_nth(1) [OF i2] enrich_chunk_id [OF hier] sec t m)
    show "c_id (enrich self cs1 pdf_metadata1 ! i) =
               generate_hierarchical_id (e_md5 self) src
                 (section_label (c_metadata (enrich self cs1 pdf_metadata1 ! i))) i
                 (c_text (enrich self cs1 pdf_metadata1 ! i))"
      by (simp add: enrich_nth [OF i1] enrich_chunk_id [OF hier] s1)
  qed
  have "map c_id (enrich self cs1 pdf_metadata1) = map c_id (enrich self cs2 pdf_metadata2)"
    by (rule nth_equalityI) (simp_all add: len ids)
  with formula len show ?thesis by simp
qed

theorem hierarchical_ids_deterministic_witness:
  "\<exists>cs1 cs2.
      chunk (\<lambda>name line. False) (\<lambda>i. ''0f0f0f0f'')
        \<lparr>chunk_size = 10, overlap_percent = 20, min_chunk_size = 3, section_detection = True\<rparr>
        ''abc defghijk'' ''doc'' = Inr cs1
    \<and> chunk (\<lambda>name line. False) (\<lambda>i. ''a1a1a1a1'')
        \<lparr>chunk_size = 10, overlap_percent = 20, min_chunk_size = 3, section_detection = True\<rparr>
        ''abc defghijk'' ''doc'' = Inr cs2
    \<and> map c_id cs1 \<noteq> map c_id cs2
    \<and> map c_id (enrich \<lparr>e_config = default_EnricherConfig,
                            e_pattern_match = (\<lambda>name line. False),
                            e_page_marker = (\<lambda>t. None),
                            e_md5 = (\<lambda>s. rev s @ ''0123456789abcdef'')\<rparr> cs1 None)
      = map c_id (enrich \<lparr>e_config = default_EnricherConfig,
                            e_pattern_match = (\<lambda>name line. False),
                            e_page_marker = (\<lambda>t. None),
                            e_md5 = (\<lambda>s. rev s @ ''0123456789abcdef'')\<rparr> cs2 None)"
proof -
  let ?cfg = "\<lparr>chunk_size = 10, overlap_percent = 20, min_chunk_size = 3, section_detection = True\<rparr>"
  let ?pm = "\<lambda>(name :: string) (line :: string). False"
  let ?self = "\<lparr>e_config = default_EnricherConfig, e_pattern_match = ?pm,
      e_page_marker = (\<lambda>t. None), e_md5 = (\<lambda>s. rev s @ ''0123456789abcdef'')\<rparr>"
  have "map_sum id (map c_id) (chunk ?pm (\<lambda>i. ''0f0f0f0f'') ?cfg ''abc defghijk'' ''doc'')
      = Inr [''doc_body_0_0f0f0f0f'', ''doc_body_1_0f0f0f0f'']"
    by code_simp
  then obtain cs1 where 1: "chunk ?pm (\<lambda>i. ''0f0f0f0f'') ?cfg ''abc defghijk'' ''doc'' = Inr cs1"
    and id1: "map c_id cs1 = [''doc_body_0_0f0f0f0f'', ''doc_body_1_0f0f0f0f'']"
    by (cases "chunk ?pm (\<lambda>i. ''0f0f0f0f'') ?cfg ''abc defghijk'' ''doc''") simp_all
  have "map_sum id (map c_id) (chunk ?pm (\<lambda>i. ''a1a1a1a1'') ?cfg ''abc defghijk'' ''doc'')
      = Inr [''doc_body_0_a1a1a1a1'', ''doc_body_1_a1a1a1a1'']"
    by code_simp
  then obtain cs2 where 2: "chunk ?pm (\<lambda>i. ''a1a1a1a1'') ?cfg ''abc defghijk'' ''doc'' = Inr cs2"
    and id2: "map c_id cs2 = [''doc_body_0_a1a1a1a1'', ''doc_body_1_a1a1a1a1'']"
    by (cases "chunk ?pm (\<lambda>i. ''a1a1a1a1'') ?cfg ''abc defghijk'' ''doc''") simp_all
  have hier: "hierarchical_ids (e_config ?self)"
    by (simp add: default_EnricherConfig_def)
  from hierarchical_ids_deterministic [OF hier 1 2, of None None]
  have "map c_id (enrich ?self cs1 None) = map c_id (enrich ?self cs2 None)" by simp
  moreover from id1 id2 have "map c_id cs1 \<noteq> map c_id cs2" by simp
  ultimately show ?thesis using 1 2 by blast
qed

end
